theory Spec2Isabelle
  imports Main "HOL-Library.Word" "HOL-Library.Numeral_Type"
begin

unbundle bit_operations_syntax

section \<open>Data model (muhash.h)\<close>

text \<open>
  \<^verbatim>\<open>struct Num3072\<close> is an array of \<^verbatim>\<open>LIMBS\<close> limbs. The header selects one of two
  builds: 64-bit limbs with a 128-bit \<^verbatim>\<open>double_limb_t\<close> and 48 limbs, or 32-bit limbs
  with a 64-bit \<^verbatim>\<open>double_limb_t\<close> and 96 limbs. The limb width is the type parameter
  \<open>'a\<close> of \<open>'a word\<close>; \<^verbatim>\<open>double_limb_t\<close> is \<open>'a bit0 word\<close>, a word of twice the
  width. The two builds are \<open>'a = 64\<close> and \<open>'a = 32\<close>.
\<close>

type_synonym 'a limb_t = "'a word"
type_synonym 'a double_limb_t = "'a bit0 word"

record 'limb Num3072 =
  limbs :: "'limb list"

definition LIMB_SIZE :: "'a::len itself \<Rightarrow> nat" where
  "LIMB_SIZE _ = LENGTH('a)"

definition LIMBS :: "'a::len itself \<Rightarrow> nat" where
  "LIMBS _ = (if LENGTH('a) = 64 then 48 else 96)"

definition MAX_PRIME_DIFF :: "'a::len limb_t" where
  "MAX_PRIME_DIFF = 1103717"

text \<open>\<^verbatim>\<open>std::numeric_limits<limb_t>::max()\<close>\<close>

definition limb_max :: "'a::len limb_t" where
  "limb_max = - 1"

text \<open>\<^verbatim>\<open>class MuHash3072\<close> has the single member \<^verbatim>\<open>Num3072 data\<close>.\<close>

record 'limb MuHash3072 =
  data :: "'limb Num3072"

section \<open>Limb primitives (muhash.cpp, anonymous namespace)\<close>

text \<open>
  The primitives take their accumulator by reference; here they take it as a tuple
  \<open>(c0, c1)\<close> or \<open>(c0, c1, c2)\<close> and return the updated tuple. \<^verbatim>\<open>extract2\<close> and
  \<^verbatim>\<open>extract3\<close> return the shifted accumulator together with the limb \<open>n\<close> they extract.
\<close>

definition extract3 :: "'a::len limb_t \<times> 'a limb_t \<times> 'a limb_t
    \<Rightarrow> ('a limb_t \<times> 'a limb_t \<times> 'a limb_t) \<times> 'a limb_t" where
  "extract3 c = (case c of (c0, c1, c2) \<Rightarrow> ((c1, c2, 0), c0))"

definition extract2 :: "'a::len limb_t \<times> 'a limb_t \<Rightarrow> ('a limb_t \<times> 'a limb_t) \<times> 'a limb_t" where
  "extract2 c = (case c of (c0, c1) \<Rightarrow> ((c1, 0), c0))"

definition mul :: "'a::len limb_t \<Rightarrow> 'a limb_t \<Rightarrow> 'a limb_t \<times> 'a limb_t" where
  "mul a b =
     (let t = (ucast a :: 'a double_limb_t) * ucast b;
          c1 = ucast (drop_bit (LIMB_SIZE TYPE('a)) t);
          c0 = ucast t
      in (c0, c1))"

definition mulnadd3 :: "'a::len limb_t \<times> 'a limb_t \<times> 'a limb_t
    \<Rightarrow> 'a limb_t \<times> 'a limb_t \<times> 'a limb_t \<Rightarrow> 'a limb_t
    \<Rightarrow> 'a limb_t \<times> 'a limb_t \<times> 'a limb_t" where
  "mulnadd3 c d n =
     (case c of (c0, c1, c2) \<Rightarrow> case d of (d0, d1, d2) \<Rightarrow>
        let t = (ucast d0 :: 'a double_limb_t) * ucast n + ucast c0;
            c0 = ucast t;
            t = drop_bit (LIMB_SIZE TYPE('a)) t;
            t = t + ((ucast d1 :: 'a double_limb_t) * ucast n + ucast c1);
            c1 = ucast t;
            t = drop_bit (LIMB_SIZE TYPE('a)) t;
            c2 = ucast (t + ucast (d2 * n))
        in (c0, c1, c2))"

definition muln2 :: "'a::len limb_t \<times> 'a limb_t \<Rightarrow> 'a limb_t \<Rightarrow> 'a limb_t \<times> 'a limb_t" where
  "muln2 c n =
     (case c of (c0, c1) \<Rightarrow>
        let t = (ucast c0 :: 'a double_limb_t) * ucast n;
            c0 = ucast t;
            t = drop_bit (LIMB_SIZE TYPE('a)) t;
            t = t + (ucast c1 :: 'a double_limb_t) * ucast n;
            c1 = ucast t
        in (c0, c1))"

definition muladd3 :: "'a::len limb_t \<times> 'a limb_t \<times> 'a limb_t
    \<Rightarrow> 'a limb_t \<Rightarrow> 'a limb_t \<Rightarrow> 'a limb_t \<times> 'a limb_t \<times> 'a limb_t" where
  "muladd3 c a b =
     (case c of (c0, c1, c2) \<Rightarrow>
        let t = (ucast a :: 'a double_limb_t) * ucast b;
            th = (ucast (drop_bit (LIMB_SIZE TYPE('a)) t) :: 'a limb_t);
            tl = (ucast t :: 'a limb_t);
            c0 = c0 + tl;
            th = th + (if c0 < tl then 1 else 0);
            c1 = c1 + th;
            c2 = c2 + (if c1 < th then 1 else 0)
        in (c0, c1, c2))"

definition muldbladd3 :: "'a::len limb_t \<times> 'a limb_t \<times> 'a limb_t
    \<Rightarrow> 'a limb_t \<Rightarrow> 'a limb_t \<Rightarrow> 'a limb_t \<times> 'a limb_t \<times> 'a limb_t" where
  "muldbladd3 c a b =
     (case c of (c0, c1, c2) \<Rightarrow>
        let t = (ucast a :: 'a double_limb_t) * ucast b;
            th = (ucast (drop_bit (LIMB_SIZE TYPE('a)) t) :: 'a limb_t);
            tl = (ucast t :: 'a limb_t);
            c0 = c0 + tl;
            tt = th + (if c0 < tl then 1 else 0);
            c1 = c1 + tt;
            c2 = c2 + (if c1 < tt then 1 else 0);
            c0 = c0 + tl;
            th = th + (if c0 < tl then 1 else 0);
            c1 = c1 + th;
            c2 = c2 + (if c1 < th then 1 else 0)
        in (c0, c1, c2))"

definition add2 :: "'a::len limb_t \<times> 'a limb_t \<Rightarrow> 'a limb_t \<Rightarrow> 'a limb_t \<times> 'a limb_t" where
  "add2 c a =
     (case c of (c0, c1) \<Rightarrow>
        let c0 = c0 + a;
            c1 = c1 + (if c0 < a then 1 else 0)
        in (c0, c1))"

section \<open>Overflow test and full reduction\<close>

text \<open>
  \<^verbatim>\<open>IsOverflow\<close>: the early return on limb 0, then the loop over limbs 1 to
  \<^verbatim>\<open>LIMBS - 1\<close> that returns false at the first limb that is not the maximum.
\<close>

definition IsOverflow :: "'a::len limb_t Num3072 \<Rightarrow> bool" where
  "IsOverflow d =
     (if limbs d ! 0 \<le> limb_max - MAX_PRIME_DIFF then False
      else list_all (\<lambda>i. limbs d ! i = limb_max) [1..<LIMBS TYPE('a)])"

text \<open>
  \<^verbatim>\<open>FullReduce\<close>: the loop state is the carry \<open>c0\<close> and the object; each round adds
  limb \<open>i\<close> into \<open>[c0, c1]\<close> with a fresh \<open>c1 = 0\<close> and extracts the low limb back
  into limb \<open>i\<close>.
\<close>

definition FullReduce_step :: "nat \<Rightarrow> 'a::len limb_t \<times> 'a limb_t Num3072
    \<Rightarrow> 'a limb_t \<times> 'a limb_t Num3072" where
  "FullReduce_step i s =
     (case s of (c0, d) \<Rightarrow>
        let c1 = 0;
            c = add2 (c0, c1) (limbs d ! i);
            (c', n) = extract2 c
        in (fst c', d\<lparr>limbs := (limbs d)[i := n]\<rparr>))"

definition FullReduce :: "'a::len limb_t Num3072 \<Rightarrow> 'a limb_t Num3072" where
  "FullReduce d = snd (fold FullReduce_step [0..<LIMBS TYPE('a)] (MAX_PRIME_DIFF, d))"

section \<open>Multiplication and squaring modulo \<open>P\<close>\<close>

text \<open>
  The local \<^verbatim>\<open>Num3072 tmp\<close> is uninitialised in the source and every limb of it is
  written before it is read; the model starts it with zero limbs.
\<close>

definition tmp_init :: "'a::len limb_t Num3072" where
  "tmp_init = \<lparr>limbs = replicate (LIMBS TYPE('a)) 0\<rparr>"

text \<open>
  One round \<open>j\<close> of the first loop of \<^verbatim>\<open>Multiply\<close>. The loop state is \<open>(c0, c1, tmp)\<close>;
  \<open>d0, d1, d2, c2\<close> are fresh zeros in every round.
\<close>

definition Multiply_step :: "'a::len limb_t Num3072 \<Rightarrow> 'a limb_t Num3072 \<Rightarrow> nat
    \<Rightarrow> 'a limb_t \<times> 'a limb_t \<times> 'a limb_t Num3072
    \<Rightarrow> 'a limb_t \<times> 'a limb_t \<times> 'a limb_t Num3072" where
  "Multiply_step in_out a j s =
     (case s of (c0, c1, tmp) \<Rightarrow>
        let d2 = 0; c2 = 0;
            (d0, d1) = mul (limbs in_out ! (1 + j)) (limbs a ! (LIMBS TYPE('a) + j - (1 + j)));
            d = fold (\<lambda>i d. muladd3 d (limbs in_out ! i) (limbs a ! (LIMBS TYPE('a) + j - i)))
                  [2 + j..<LIMBS TYPE('a)] (d0, d1, d2);
            c = mulnadd3 (c0, c1, c2) d MAX_PRIME_DIFF;
            c = fold (\<lambda>i c. muladd3 c (limbs in_out ! i) (limbs a ! (j - i))) [0..<j + 1] c;
            (c', n) = extract3 c
        in (fst c', fst (snd c'), tmp\<lparr>limbs := (limbs tmp)[j := n]\<rparr>))"

text \<open>The block that computes limb \<^verbatim>\<open>LIMBS - 1\<close>.\<close>

definition Multiply_last :: "'a::len limb_t Num3072 \<Rightarrow> 'a limb_t Num3072
    \<Rightarrow> 'a limb_t \<times> 'a limb_t \<times> 'a limb_t Num3072
    \<Rightarrow> 'a limb_t \<times> 'a limb_t \<times> 'a limb_t Num3072" where
  "Multiply_last in_out a s =
     (case s of (c0, c1, tmp) \<Rightarrow>
        let c2 = 0;
            c = fold (\<lambda>i c. muladd3 c (limbs in_out ! i) (limbs a ! (LIMBS TYPE('a) - 1 - i)))
                  [0..<LIMBS TYPE('a)] (c0, c1, c2);
            (c', n) = extract3 c
        in (fst c', fst (snd c'), tmp\<lparr>limbs := (limbs tmp)[LIMBS TYPE('a) - 1 := n]\<rparr>))"

text \<open>
  The second reduction, shared verbatim by \<^verbatim>\<open>Multiply\<close> and \<^verbatim>\<open>Square\<close>: \<^verbatim>\<open>muln2\<close> by
  \<^verbatim>\<open>MAX_PRIME_DIFF\<close>, then the loop that adds \<open>tmp\<close> limb by limb and writes \<open>in_out\<close>.
  The result is the state \<open>(c0, c1, in_out)\<close> at the place of the \<^verbatim>\<open>DEBUG\<close> assertions.
\<close>

definition reduce2_step :: "'a::len limb_t Num3072 \<Rightarrow> nat
    \<Rightarrow> 'a limb_t \<times> 'a limb_t \<times> 'a limb_t Num3072
    \<Rightarrow> 'a limb_t \<times> 'a limb_t \<times> 'a limb_t Num3072" where
  "reduce2_step tmp j s =
     (case s of (c0, c1, in_out) \<Rightarrow>
        let c = add2 (c0, c1) (limbs tmp ! j);
            (c', n) = extract2 c
        in (fst c', snd c', in_out\<lparr>limbs := (limbs in_out)[j := n]\<rparr>))"

definition second_reduction :: "'a::len limb_t Num3072
    \<Rightarrow> 'a limb_t \<times> 'a limb_t \<times> 'a limb_t Num3072
    \<Rightarrow> 'a limb_t \<times> 'a limb_t \<times> 'a limb_t Num3072" where
  "second_reduction in_out s =
     (case s of (c0, c1, tmp) \<Rightarrow>
        let (c0, c1) = muln2 (c0, c1) MAX_PRIME_DIFF
        in fold (reduce2_step tmp) [0..<LIMBS TYPE('a)] (c0, c1, in_out))"

text \<open>The state \<open>(c0, c1, in_out)\<close> of \<^verbatim>\<open>Multiply\<close> after its second reduction.\<close>

definition Multiply_carry :: "'a::len limb_t Num3072 \<Rightarrow> 'a limb_t Num3072
    \<Rightarrow> 'a limb_t \<times> 'a limb_t \<times> 'a limb_t Num3072" where
  "Multiply_carry in_out a =
     (let s = fold (Multiply_step in_out a) [0..<LIMBS TYPE('a) - 1] (0, 0, tmp_init);
          s = Multiply_last in_out a s
      in second_reduction in_out s)"

definition Multiply :: "'a::len limb_t Num3072 \<Rightarrow> 'a limb_t Num3072 \<Rightarrow> 'a limb_t Num3072" where
  "Multiply in_out a =
     (case Multiply_carry in_out a of (c0, c1, in_out) \<Rightarrow>
        if c0 \<noteq> 0 then FullReduce in_out else in_out)"

text \<open>
  One round \<open>j\<close> of the first loop of \<^verbatim>\<open>Square\<close>. The test \<^verbatim>\<open>(j + 1) & 1\<close> is on the
  C \<^verbatim>\<open>int\<close> \<open>j + 1\<close>.
\<close>

definition Square_step :: "'a::len limb_t Num3072 \<Rightarrow> nat
    \<Rightarrow> 'a limb_t \<times> 'a limb_t \<times> 'a limb_t Num3072
    \<Rightarrow> 'a limb_t \<times> 'a limb_t \<times> 'a limb_t Num3072" where
  "Square_step in_out j s =
     (case s of (c0, c1, tmp) \<Rightarrow>
        let d = (0, 0, 0); c2 = 0;
            d = fold (\<lambda>i d. muldbladd3 d (limbs in_out ! (i + j + 1)) (limbs in_out ! (LIMBS TYPE('a) - 1 - i)))
                  [0..<(LIMBS TYPE('a) - 1 - j) div 2] d;
            d = (if (int (j + 1)) AND 1 \<noteq> 0
                 then muladd3 d (limbs in_out ! ((LIMBS TYPE('a) - 1 - j) div 2 + j + 1))
                        (limbs in_out ! (LIMBS TYPE('a) - 1 - (LIMBS TYPE('a) - 1 - j) div 2))
                 else d);
            c = mulnadd3 (c0, c1, c2) d MAX_PRIME_DIFF;
            c = fold (\<lambda>i c. muldbladd3 c (limbs in_out ! i) (limbs in_out ! (j - i))) [0..<(j + 1) div 2] c;
            c = (if (int (j + 1)) AND 1 \<noteq> 0
                 then muladd3 c (limbs in_out ! ((j + 1) div 2)) (limbs in_out ! (j - (j + 1) div 2))
                 else c);
            (c', n) = extract3 c
        in (fst c', fst (snd c'), tmp\<lparr>limbs := (limbs tmp)[j := n]\<rparr>))"

definition Square_last :: "'a::len limb_t Num3072
    \<Rightarrow> 'a limb_t \<times> 'a limb_t \<times> 'a limb_t Num3072
    \<Rightarrow> 'a limb_t \<times> 'a limb_t \<times> 'a limb_t Num3072" where
  "Square_last in_out s =
     (case s of (c0, c1, tmp) \<Rightarrow>
        let c2 = 0;
            c = fold (\<lambda>i c. muldbladd3 c (limbs in_out ! i) (limbs in_out ! (LIMBS TYPE('a) - 1 - i)))
                  [0..<LIMBS TYPE('a) div 2] (c0, c1, c2);
            (c', n) = extract3 c
        in (fst c', fst (snd c'), tmp\<lparr>limbs := (limbs tmp)[LIMBS TYPE('a) - 1 := n]\<rparr>))"

text \<open>The state \<open>(c0, c1, in_out)\<close> of \<^verbatim>\<open>Square\<close> after its second reduction.\<close>

definition Square_carry :: "'a::len limb_t Num3072
    \<Rightarrow> 'a limb_t \<times> 'a limb_t \<times> 'a limb_t Num3072" where
  "Square_carry in_out =
     (let s = fold (Square_step in_out) [0..<LIMBS TYPE('a) - 1] (0, 0, tmp_init);
          s = Square_last in_out s
      in second_reduction in_out s)"

definition Square :: "'a::len limb_t Num3072 \<Rightarrow> 'a limb_t Num3072" where
  "Square in_out =
     (case Square_carry in_out of (c0, c1, in_out) \<Rightarrow>
        if c0 \<noteq> 0 then FullReduce in_out else in_out)"

section \<open>Modular inverse\<close>

text \<open>\<^verbatim>\<open>for (int j = 0; j < n; ++j) Square(&x);\<close>\<close>

definition Square_times :: "nat \<Rightarrow> 'a::len limb_t Num3072 \<Rightarrow> 'a limb_t Num3072" where
  "Square_times n x = fold (\<lambda>j x. Square x) [0..<n] x"

text \<open>
  The table \<^verbatim>\<open>p[12]\<close>: \<^verbatim>\<open>p[0] = *a\<close>, and round \<open>i\<close> of the loop sets \<^verbatim>\<open>p[i + 1]\<close>
  (\<^verbatim>\<open>1 << i\<close> squarings of a copy of \<^verbatim>\<open>p[i]\<close>, then a multiplication by \<^verbatim>\<open>p[i]\<close>).
  The other entries are uninitialised in the source until they are written.
\<close>

definition Inverse_table_step :: "nat \<Rightarrow> 'a::len limb_t Num3072 list \<Rightarrow> 'a limb_t Num3072 list" where
  "Inverse_table_step i p =
     (let p = p[i + 1 := p ! i];
          p = p[i + 1 := Square_times (push_bit i 1) (p ! (i + 1))];
          p = p[i + 1 := Multiply (p ! (i + 1)) (p ! i)]
      in p)"

definition Inverse_table :: "'a::len limb_t Num3072 \<Rightarrow> 'a limb_t Num3072 list" where
  "Inverse_table a = fold Inverse_table_step [0..<11] ((replicate 12 tmp_init)[0 := a])"

definition Inverse :: "'a::len limb_t Num3072 \<Rightarrow> 'a limb_t Num3072" where
  "Inverse a =
     (let p = Inverse_table a;
          x = p ! 11;
          x = Square_times 512 x; x = Multiply x (p ! 9);
          x = Square_times 256 x; x = Multiply x (p ! 8);
          x = Square_times 128 x; x = Multiply x (p ! 7);
          x = Square_times 64 x; x = Multiply x (p ! 6);
          x = Square_times 32 x; x = Multiply x (p ! 5);
          x = Square_times 8 x; x = Multiply x (p ! 3);
          x = Square_times 2 x; x = Multiply x (p ! 1);
          x = Square_times 1 x; x = Multiply x (p ! 0);
          x = Square_times 5 x; x = Multiply x (p ! 2);
          x = Square_times 3 x; x = Multiply x (p ! 0);
          x = Square_times 2 x; x = Multiply x (p ! 0);
          x = Square_times 4 x; x = Multiply x (p ! 0);
          x = Square_times 4 x; x = Multiply x (p ! 1);
          x = Square_times 3 x; x = Multiply x (p ! 0)
      in x)"

section \<open>The class \<^verbatim>\<open>MuHash3072\<close>\<close>

text \<open>
  The default constructor: limb 0 is 1, limbs 1 to \<^verbatim>\<open>LIMBS - 1\<close> are set to 0. The
  constructor from a 32-byte key fills the limbs from a ChaCha20 keystream; ChaCha20 is
  not among the sources and that constructor is not modelled.
\<close>

definition MuHash3072_empty :: "'a::len limb_t MuHash3072" where
  "MuHash3072_empty =
     \<lparr>data = \<lparr>limbs = fold (\<lambda>i l. l[i := 0]) [1..<LIMBS TYPE('a)]
                          ((replicate (LIMBS TYPE('a)) 0)[0 := 1])\<rparr>\<rparr>"

text \<open>
  Modelled from the spec: \<^verbatim>\<open>WriteLE32\<close> and \<^verbatim>\<open>WriteLE64\<close> of \<^verbatim>\<open>crypto/common.h\<close>, which
  is not among the sources. Each limb is encoded little-endian over its width: byte \<open>k\<close>
  holds bits \<open>8k\<close> to \<open>8k + 7\<close>.
\<close>

definition WriteLE :: "'a::len limb_t \<Rightarrow> 8 word list" where
  "WriteLE x = map (\<lambda>k. ucast (drop_bit (8 * k) x)) [0..<LENGTH('a) div 8]"

text \<open>
  \<^verbatim>\<open>Finalize\<close> is not a \<^verbatim>\<open>const\<close> member: it may call \<^verbatim>\<open>FullReduce\<close> on \<^verbatim>\<open>data\<close>. The
  model returns the object after the call and the bytes written to \<^verbatim>\<open>hash384\<close>, limb
  by limb. The assertion \<^verbatim>\<open>hash384.size() == OUTPUT_SIZE\<close> is about the caller's buffer,
  which the model does not take as an argument.
\<close>

definition Finalize :: "'a::len limb_t MuHash3072 \<Rightarrow> 'a limb_t MuHash3072 \<times> 8 word list" where
  "Finalize h =
     (let h = (if IsOverflow (data h) then h\<lparr>data := FullReduce (data h)\<rparr> else h)
      in (h, concat (map (\<lambda>i. WriteLE (limbs (data h) ! i)) [0..<LIMBS TYPE('a)])))"

text \<open>
  The compound assignments work on objects in memory. A store maps addresses to objects
  and \<open>this\<close> is the address of the left operand. \<^verbatim>\<open>Multiply\<close> gets the pointer
  \<^verbatim>\<open>&this->data\<close> as \<open>in_out\<close> and, as \<open>a\<close>, a pointer to a constant \<^verbatim>\<open>Num3072\<close>: the
  member \<^verbatim>\<open>data\<close> of the object that the reference parameter \<open>x\<close> is bound to, which
  may be the object at \<open>this\<close> itself, or the local \<^verbatim>\<open>tmp\<close> of \<^verbatim>\<open>operator/=\<close>.
\<close>

type_synonym 'limb store = "nat \<Rightarrow> 'limb MuHash3072"

datatype 'limb const_ptr = Member nat | Local_var "'limb Num3072"

definition deref :: "'limb store \<Rightarrow> 'limb const_ptr \<Rightarrow> 'limb Num3072" where
  "deref s a = (case a of Member x \<Rightarrow> data (s x) | Local_var v \<Rightarrow> v)"

text \<open>The assignment to \<^verbatim>\<open>in_out->limbs[j]\<close>, for \<^verbatim>\<open>in_out = &this->data\<close>.\<close>

definition store_limb :: "'limb store \<Rightarrow> nat \<Rightarrow> nat \<Rightarrow> 'limb \<Rightarrow> 'limb store" where
  "store_limb s this j n =
     s(this := (s this)\<lparr>data := (data (s this))\<lparr>limbs := (limbs (data (s this)))[j := n]\<rparr>\<rparr>)"

text \<open>
  \<^verbatim>\<open>FullReduce(in_out)\<close> on the store: round \<open>i\<close> reads limb \<open>i\<close> of the object at \<open>this\<close>
  and writes it back.
\<close>

definition FullReduce_at_step :: "nat \<Rightarrow> nat \<Rightarrow> 'a::len limb_t \<times> 'a limb_t store
    \<Rightarrow> 'a limb_t \<times> 'a limb_t store" where
  "FullReduce_at_step this i st =
     (case st of (c0, s) \<Rightarrow>
        let c1 = 0;
            c = add2 (c0, c1) (limbs (data (s this)) ! i);
            (c', n) = extract2 c
        in (fst c', store_limb s this i n))"

definition FullReduce_at :: "'a::len limb_t store \<Rightarrow> nat \<Rightarrow> 'a limb_t store" where
  "FullReduce_at s this =
     snd (fold (FullReduce_at_step this) [0..<LIMBS TYPE('a)] (MAX_PRIME_DIFF, s))"

text \<open>One round of the loop of the second reduction, writing through \<open>in_out\<close>.\<close>

definition reduce2_at_step :: "nat \<Rightarrow> 'a::len limb_t Num3072 \<Rightarrow> nat
    \<Rightarrow> 'a limb_t \<times> 'a limb_t \<times> 'a limb_t store
    \<Rightarrow> 'a limb_t \<times> 'a limb_t \<times> 'a limb_t store" where
  "reduce2_at_step this tmp j st =
     (case st of (c0, c1, s) \<Rightarrow>
        let c = add2 (c0, c1) (limbs tmp ! j);
            (c', n) = extract2 c
        in (fst c', snd c', store_limb s this j n))"

text \<open>
  \<^verbatim>\<open>Multiply(&this->data, a)\<close> on the store, in the order of the source: the first loop
  and the block for limb \<^verbatim>\<open>LIMBS - 1\<close> read both operands from the store and write the
  local \<open>tmp\<close> only; the second reduction then writes the limbs of the object at \<open>this\<close>
  one by one, and the third reduction works on that object in place.
\<close>

definition Multiply_at :: "'a::len limb_t store \<Rightarrow> nat \<Rightarrow> 'a limb_t const_ptr \<Rightarrow> 'a limb_t store" where
  "Multiply_at s this a =
     (let st = fold (\<lambda>j. Multiply_step (data (s this)) (deref s a) j)
                 [0..<LIMBS TYPE('a) - 1] (0, 0, tmp_init);
          (c0, c1, tmp) = Multiply_last (data (s this)) (deref s a) st;
          (c0, c1) = muln2 (c0, c1) MAX_PRIME_DIFF;
          (c0, c1, s) = fold (reduce2_at_step this tmp) [0..<LIMBS TYPE('a)] (c0, c1, s)
      in if c0 \<noteq> 0 then FullReduce_at s this else s)"

text \<open>\<^verbatim>\<open>operator*=\<close>: \<^verbatim>\<open>Multiply(&this->data, &x.data)\<close>.\<close>

definition operator_mul_assign :: "'a::len limb_t store \<Rightarrow> nat \<Rightarrow> nat \<Rightarrow> 'a limb_t store" where
  "operator_mul_assign s this x = Multiply_at s this (Member x)"

text \<open>
  \<^verbatim>\<open>operator/=\<close>: \<^verbatim>\<open>Inverse(&tmp, &x.data)\<close> copies \<^verbatim>\<open>x.data\<close> into its table and assigns
  its local result to the local \<^verbatim>\<open>tmp\<close>; then \<^verbatim>\<open>Multiply(&this->data, &tmp)\<close>.
\<close>

definition operator_div_assign :: "'a::len limb_t store \<Rightarrow> nat \<Rightarrow> nat \<Rightarrow> 'a limb_t store" where
  "operator_div_assign s this x =
     (let tmp = Inverse (deref s (Member x))
      in Multiply_at s this (Local_var tmp))"

section \<open>Values\<close>

text \<open>
  The integer a limb sequence denotes, limb 0 least significant, with the radix \<open>2^w\<close> of
  a limb of width \<open>w\<close>; and the value of a 2-limb and of a 3-limb accumulator.
\<close>

primrec limbs_value :: "'a::len limb_t list \<Rightarrow> nat" where
  "limbs_value [] = 0"
| "limbs_value (x # xs) = unat x + 2 ^ LENGTH('a) * limbs_value xs"

definition num_value :: "'a::len limb_t Num3072 \<Rightarrow> nat" where
  "num_value d = limbs_value (limbs d)"

definition val2 :: "'a::len limb_t \<times> 'a limb_t \<Rightarrow> nat" where
  "val2 c = (case c of (c0, c1) \<Rightarrow> unat c0 + 2 ^ LENGTH('a) * unat c1)"

definition val3 :: "'a::len limb_t \<times> 'a limb_t \<times> 'a limb_t \<Rightarrow> nat" where
  "val3 c = (case c of (c0, c1, c2) \<Rightarrow>
     unat c0 + 2 ^ LENGTH('a) * unat c1 + 2 ^ LENGTH('a) * (2 ^ LENGTH('a) * unat c2))"

text \<open>The modulus \<open>P = 2^3072 - 1103717\<close>.\<close>

definition prime_P :: nat where
  "prime_P = 2 ^ 3072 - 1103717"

text \<open>The two builds of the header.\<close>

definition build_ok :: "'a::len itself \<Rightarrow> bool" where
  "build_ok _ = (LENGTH('a) = 64 \<or> LENGTH('a) = 32)"

text \<open>
  The schoolbook product by columns. For output limb \<open>j\<close>, \<open>low_sum\<close> adds the products
  \<open>x[i] \<cdot> a[j - i]\<close> of weight \<open>2^(wj)\<close> and \<open>high_sum\<close> the products \<open>x[i] \<cdot> a[LIMBS + j - i]\<close>
  of weight \<open>2^(3072 + wj)\<close>; \<open>column\<close> is what the first loop of \<open>Multiply\<close>
  accumulates for limb \<open>j\<close>, the high products folded in with the factor 1103717.
\<close>

definition low_sum :: "'a::len limb_t list \<Rightarrow> 'a limb_t list \<Rightarrow> nat \<Rightarrow> nat" where
  "low_sum x a j = (\<Sum>i\<le>j. unat (x ! i) * unat (a ! (j - i)))"

definition high_sum :: "'a::len limb_t list \<Rightarrow> 'a limb_t list \<Rightarrow> nat \<Rightarrow> nat" where
  "high_sum x a j =
     (\<Sum>i = Suc j..<LIMBS TYPE('a). unat (x ! i) * unat (a ! (LIMBS TYPE('a) + j - i)))"

definition low_part :: "'a::len limb_t list \<Rightarrow> 'a limb_t list \<Rightarrow> nat" where
  "low_part x a = (\<Sum>j<LIMBS TYPE('a). (2 ^ LENGTH('a)) ^ j * low_sum x a j)"

definition high_part :: "'a::len limb_t list \<Rightarrow> 'a limb_t list \<Rightarrow> nat" where
  "high_part x a = (\<Sum>j<LIMBS TYPE('a). (2 ^ LENGTH('a)) ^ j * high_sum x a j)"

definition column :: "'a::len limb_t list \<Rightarrow> 'a limb_t list \<Rightarrow> nat \<Rightarrow> nat" where
  "column x a j = 1103717 * high_sum x a j + low_sum x a j"

text \<open>
  \<open>power_rep y v e\<close>: the object \<open>y\<close> has \<open>LIMBS\<close> limbs and its value is congruent to
  \<open>v^e\<close> modulo \<open>P\<close>. It tracks the exponent through the squarings and multiplications
  of \<open>Inverse\<close>.
\<close>

definition power_rep :: "'a::len limb_t Num3072 \<Rightarrow> nat \<Rightarrow> nat \<Rightarrow> bool" where
  "power_rep y v e = (length (limbs y) = LIMBS TYPE('a) \<and> num_value y mod prime_P = v ^ e mod prime_P)"

section \<open>Example objects\<close>

text \<open>The 64-bit object with every limb at the maximum: the value \<open>2^3072 - 1\<close>.\<close>

definition all_max_64 :: "64 limb_t Num3072" where
  "all_max_64 = \<lparr>limbs = replicate 48 (- 1)\<rparr>"

text \<open>The 64-bit objects with the values 2 and \<open>(P + 1) / 2 = 2^3071 - 551858\<close>.\<close>

definition two_64 :: "64 limb_t Num3072" where
  "two_64 = \<lparr>limbs = 2 # replicate 47 0\<rparr>"

definition half_64 :: "64 limb_t Num3072" where
  "half_64 = \<lparr>limbs = (- 551858) # replicate 46 (- 1) @ [9223372036854775807]\<rparr>"

text \<open>The 64-bit object with the value \<open>P - 1 = 2^3072 - 1103718\<close>.\<close>

definition minus_one_64 :: "64 limb_t Num3072" where
  "minus_one_64 = \<lparr>limbs = (- 1103718) # replicate 47 (- 1)\<rparr>"

text \<open>A store with the object of value 2 at address 0 and the object of value \<open>(P + 1) / 2\<close> elsewhere.\<close>

definition example_store :: "64 limb_t store" where
  "example_store = (\<lambda>p. if p = 0 then \<lparr>data = two_64\<rparr> else \<lparr>data = half_64\<rparr>)"

text \<open>A store in which every object has the value \<open>P - 1\<close>.\<close>

definition minus_one_store :: "64 limb_t store" where
  "minus_one_store = (\<lambda>p. \<lparr>data = minus_one_64\<rparr>)"

section \<open>Limbs as natural numbers\<close>

lemma unat_lt_radix: "unat (x::'a::len word) < 2 ^ LENGTH('a)"
  by (rule unsigned_less)

lemma pow_dbl: "(2::nat) ^ (2 * n) = 2 ^ n * 2 ^ n"
  by (simp add: mult_2 power_add)

lemma unat_ucast_dbl: "unat (ucast (x::'a::len word) :: 'a bit0 word) = unat x"
proof -
  have "unat x < 2 ^ LENGTH('a bit0)"
  proof -
    have "(2::nat) ^ LENGTH('a) \<le> 2 ^ LENGTH('a bit0)" by (simp add: power_increasing)
    then show ?thesis using unat_lt_radix [of x] by linarith
  qed
  then show ?thesis
    by (simp add: unsigned_ucast_eq take_bit_nat_def)
qed

lemma unat_dbl_lt: "unat (t :: 'a::len bit0 word) < 2 ^ LENGTH('a) * 2 ^ LENGTH('a)"
  using unat_lt_radix [of t] by (simp add: pow_dbl)

lemma unat_dbl_lo: "unat (ucast (t :: 'a::len bit0 word) :: 'a word) = unat t mod 2 ^ LENGTH('a)"
  by (simp add: unsigned_ucast_eq take_bit_nat_def)

lemma unat_dbl_hi:
  "unat (ucast (drop_bit (LIMB_SIZE TYPE('a)) (t :: 'a::len bit0 word)) :: 'a word) = unat t div 2 ^ LENGTH('a)"
proof -
  have "unat t div 2 ^ LENGTH('a) < 2 ^ LENGTH('a)"
    using unat_dbl_lt [of t] by (simp add: less_mult_imp_div_less)
  then show ?thesis
    by (simp add: unsigned_ucast_eq take_bit_nat_def unat_drop_bit_eq drop_bit_nat_def LIMB_SIZE_def)
qed

lemma unat_dbl_drop:
  "unat (drop_bit (LIMB_SIZE TYPE('a)) (t :: 'a::len bit0 word)) = unat t div 2 ^ LENGTH('a)"
  by (simp add: unat_drop_bit_eq drop_bit_nat_def LIMB_SIZE_def)

lemma mult_lt_sq: "a < (w::nat) \<Longrightarrow> b < w \<Longrightarrow> c < w \<Longrightarrow> d < w \<Longrightarrow> a * b + c + d < w * w"
proof -
  assume a: "a < w" and b: "b < w" and c: "c < w" and d: "d < w"
  have "a * b \<le> (w - 1) * (w - 1)" using a b by (intro mult_mono) auto
  moreover have "(w - 1) * (w - 1) + (w - 1) + (w - 1) < w * w" using a
    by (cases w) (auto simp: algebra_simps)
  ultimately show ?thesis using c d by linarith
qed

lemma unat_dbl_add:
  "unat x + unat y < 2 ^ LENGTH('a) * 2 ^ LENGTH('a) \<Longrightarrow>
   unat ((x :: 'a::len bit0 word) + y) = unat x + unat y"
  by (simp add: unat_word_ariths pow_dbl)

lemma unat_dbl_mul:
  "unat ((ucast (a::'a::len word) :: 'a bit0 word) * ucast (b::'a word)) = unat a * unat b"
proof -
  have "unat a * unat b + 0 + 0 < 2 ^ LENGTH('a) * 2 ^ LENGTH('a)"
    by (rule mult_lt_sq) (simp_all add: unat_lt_radix)
  then show ?thesis
    by (simp add: unat_word_ariths unat_ucast_dbl pow_dbl)
qed

lemma carry_iff: "(x + y < y) = (2 ^ LENGTH('a) \<le> unat (x::'a::len word) + unat y)"
proof (cases "unat x + unat y < 2 ^ LENGTH('a)")
  case True
  then show ?thesis by (simp add: word_less_nat_alt unat_plus_if')
next
  case False
  moreover have "unat x + unat y - 2 ^ LENGTH('a) < unat y"
    using unat_lt_radix [of x] False by linarith
  ultimately show ?thesis by (simp add: word_less_nat_alt unat_plus_if')
qed

lemma unat_carry:
  "unat (if x + y < y then (1::'a::len word) else 0) = (unat x + unat (y::'a word)) div 2 ^ LENGTH('a)"
proof -
  have "unat x + unat y < 2 * 2 ^ LENGTH('a)"
    using unat_lt_radix [of x] unat_lt_radix [of y] by linarith
  then have "(unat x + unat y) div 2 ^ LENGTH('a) = (if 2 ^ LENGTH('a) \<le> unat x + unat y then 1 else 0)"
    by (auto simp: div_eq_0_iff intro!: Euclidean_Rings.div_nat_eqI)
  then show ?thesis by (simp add: carry_iff)
qed

lemma mod3_digits:
  assumes "a < (w::nat)" "b < w"
  shows "(a + w * b + w * (w * c)) mod (w * w * w) = a + w * b + w * (w * (c mod w))"
proof -
  have w: "0 < w" using assms by simp
  have lt: "a + w * b < w * w"
  proof -
    have "w * (b + 1) \<le> w * w" using assms by (intro mult_le_mono2) simp
    then show ?thesis using assms by (simp add: algebra_simps)
  qed
  have "(a + w * b + w * (w * c)) mod (w * w * w) =
        w * w * ((a + w * b + w * (w * c)) div (w * w) mod w) + (a + w * b + w * (w * c)) mod (w * w)"
    by (rule mod_mult2_eq)
  moreover have "(a + w * b + w * (w * c)) div (w * w) = c"
    using lt w by (simp add: mult.assoc [symmetric])
  moreover have "(a + w * b + w * (w * c)) mod (w * w) = a + w * b"
    using lt by (simp add: mult.assoc [symmetric])
  ultimately show ?thesis by (simp add: algebra_simps)
qed

lemma hi_plus_carry_lt:
  assumes "a < (w::nat)" "b < w" "c < w"
  shows "a * b div w + (c + a * b mod w) div w < w"
proof -
  have "a * b + c + 0 < w * w" using assms by (intro mult_lt_sq) auto
  then have "(a * b + c) div w < w" by (simp add: less_mult_imp_div_less)
  moreover have "(a * b + c) div w = a * b div w + (c + a * b mod w) div w"
  proof -
    have "a * b + c = (c + a * b mod w) + w * (a * b div w)" by simp
    then have "(a * b + c) div w = ((c + a * b mod w) + w * (a * b div w)) div w" by simp
    also have "\<dots> = (c + a * b mod w) div w + a * b div w"
      using assms by (subst div_mult_self2) auto
    finally show ?thesis by simp
  qed
  ultimately show ?thesis by simp
qed

lemma muladd3_val:
  "val3 (muladd3 (c0, c1, c2) a (b::'a::len word)) =
     (val3 (c0, c1, c2) + unat a * unat b) mod (2 ^ LENGTH('a) * 2 ^ LENGTH('a) * 2 ^ LENGTH('a))"
proof -
  define w :: nat where "w = 2 ^ LENGTH('a)"
  define p where "p = unat a * unat b"
  define t where "t = (ucast a :: 'a bit0 word) * ucast b"
  define th where "th = (ucast (drop_bit (LIMB_SIZE TYPE('a)) t) :: 'a word)"
  define tl where "tl = (ucast t :: 'a word)"
  define k0 where "k0 = (if c0 + tl < tl then (1::'a word) else 0)"
  define k1 where "k1 = (if c1 + (th + k0) < th + k0 then (1::'a word) else 0)"
  have ut: "unat t = p" by (simp add: t_def p_def unat_dbl_mul)
  have utl: "unat tl = p mod w" by (simp add: tl_def unat_dbl_lo ut w_def)
  have uth: "unat th = p div w" by (simp add: th_def unat_dbl_hi ut w_def)
  have uk0: "unat k0 = (unat c0 + p mod w) div w"
    unfolding k0_def by (simp add: unat_carry utl w_def)
  have lt: "p div w + (unat c0 + p mod w) div w < w"
    unfolding p_def w_def by (rule hi_plus_carry_lt) (simp_all add: unat_lt_radix)
  have uth': "unat (th + k0) = p div w + (unat c0 + p mod w) div w"
    using lt by (simp add: unat_word_ariths uth uk0 w_def)
  have uk1: "unat k1 = (unat c1 + unat (th + k0)) div w"
    unfolding k1_def by (simp add: unat_carry w_def)
  have r: "muladd3 (c0, c1, c2) a b = (c0 + tl, c1 + (th + k0), c2 + k1)"
    by (simp add: muladd3_def Let_def t_def th_def tl_def k0_def k1_def)
  have u0: "unat (c0 + tl) = (unat c0 + p mod w) mod w"
    by (simp add: unat_word_ariths utl w_def)
  have u1: "unat (c1 + (th + k0)) = (unat c1 + unat (th + k0)) mod w"
    by (simp add: unat_word_ariths w_def)
  have u2: "unat (c2 + k1) = (unat c2 + unat k1) mod w"
    by (simp add: unat_word_ariths w_def)
  have "val3 (c0 + tl, c1 + (th + k0), c2 + k1) =
      (unat c0 + p mod w) mod w + w * ((unat c1 + unat (th + k0)) mod w)
        + w * (w * ((unat c2 + unat k1) mod w))"
    by (simp add: val3_def u0 u1 u2 w_def [symmetric])
  also have "\<dots> = ((unat c0 + p mod w) mod w + w * ((unat c1 + unat (th + k0)) mod w)
        + w * (w * (unat c2 + unat k1))) mod (w * w * w)"
    by (rule mod3_digits [symmetric]) (simp_all add: w_def)
  also have "(unat c0 + p mod w) mod w + w * ((unat c1 + unat (th + k0)) mod w)
        + w * (w * (unat c2 + unat k1)) = unat c0 + w * unat c1 + w * (w * unat c2) + p"
  proof -
    have "w * (w * (unat c2 + unat k1)) = w * (w * unat c2) + w * (w * ((unat c1 + unat (th + k0)) div w))"
      by (simp add: uk1 algebra_simps)
    moreover have "w * ((unat c1 + unat (th + k0)) mod w) + w * (w * ((unat c1 + unat (th + k0)) div w))
       = w * (unat c1 + unat (th + k0))"
      by (simp add: distrib_left [symmetric])
    moreover have "w * (unat c1 + unat (th + k0)) = w * unat c1 + w * (p div w) + w * ((unat c0 + p mod w) div w)"
      by (simp only: uth' distrib_left add.assoc)
    moreover have "(unat c0 + p mod w) mod w + w * ((unat c0 + p mod w) div w) = unat c0 + p mod w"
      by simp
    moreover have "p mod w + w * (p div w) = p" by simp
    ultimately show ?thesis by linarith
  qed
  finally show ?thesis
    by (simp add: r val3_def w_def p_def)
qed

section \<open>What the limb primitives compute\<close>

lemma muladd3_val':
  "val3 (muladd3 c a (b::'a::len word)) =
     (val3 c + unat a * unat b) mod (2 ^ LENGTH('a) * 2 ^ LENGTH('a) * 2 ^ LENGTH('a))"
  by (cases c) (simp only: muladd3_val)

lemma muldbladd3_twice: "muldbladd3 c a b = muladd3 (muladd3 c a b) a b"
  by (cases c) (simp add: muldbladd3_def muladd3_def Let_def)

lemma muldbladd3_val:
  "val3 (muldbladd3 c a (b::'a::len word)) =
     (val3 c + 2 * (unat a * unat b)) mod (2 ^ LENGTH('a) * 2 ^ LENGTH('a) * 2 ^ LENGTH('a))"
  by (simp add: muldbladd3_twice muladd3_val' mod_add_left_eq mult_2 add.assoc)

lemma mul_val3: "mul a b = (d0, d1) \<Longrightarrow> val3 (d0, d1, 0) = unat a * unat (b::'a::len word)"
proof -
  assume "mul a b = (d0, d1)"
  then have d0: "d0 = ucast ((ucast a :: 'a bit0 word) * ucast b)"
    and d1: "d1 = ucast (drop_bit (LIMB_SIZE TYPE('a)) ((ucast a :: 'a bit0 word) * ucast b))"
    by (simp_all add: mul_def Let_def)
  have u0: "unat d0 = unat a * unat b mod 2 ^ LENGTH('a)"
    by (simp only: d0 unat_dbl_lo unat_dbl_mul)
  have u1: "unat d1 = unat a * unat b div 2 ^ LENGTH('a)"
    by (simp only: d1 unat_dbl_hi unat_dbl_mul)
  show ?thesis
    by (simp add: val3_def u0 u1)
qed

lemma mod2_digits:
  assumes "a < (w::nat)"
  shows "(a + w * b) mod (w * w) = a + w * (b mod w)"
proof -
  have "(a + w * b) mod (w * w) = w * ((a + w * b) div w mod w) + (a + w * b) mod w"
    by (rule mod_mult2_eq)
  then show ?thesis using assms by simp
qed

lemma add2_val:
  "val2 (add2 (c0, c1) (a::'a::len word)) = (val2 (c0, c1) + unat a) mod (2 ^ LENGTH('a) * 2 ^ LENGTH('a))"
proof -
  define w :: nat where "w = 2 ^ LENGTH('a)"
  define k where "k = (if c0 + a < a then (1::'a word) else 0)"
  have uk: "unat k = (unat c0 + unat a) div w"
    unfolding k_def by (simp add: unat_carry w_def)
  have r: "add2 (c0, c1) a = (c0 + a, c1 + k)"
    by (simp add: add2_def Let_def k_def)
  have "val2 (c0 + a, c1 + k) = (unat c0 + unat a) mod w + w * ((unat c1 + unat k) mod w)"
    by (simp add: val2_def unat_word_ariths w_def)
  also have "\<dots> = ((unat c0 + unat a) mod w + w * (unat c1 + unat k)) mod (w * w)"
    by (rule mod2_digits [symmetric]) (simp add: w_def)
  also have "(unat c0 + unat a) mod w + w * (unat c1 + unat k) = unat c0 + w * unat c1 + unat a"
  proof -
    have "w * (unat c1 + unat k) = w * unat c1 + w * ((unat c0 + unat a) div w)"
      by (simp only: uk distrib_left)
    moreover have "(unat c0 + unat a) mod w + w * ((unat c0 + unat a) div w) = unat c0 + unat a"
      by simp
    ultimately show ?thesis by linarith
  qed
  finally show ?thesis by (simp add: r val2_def w_def)
qed

lemma muln2_val:
  "val2 (muln2 (c0, c1) (n::'a::len word)) = (val2 (c0, c1) * unat n) mod (2 ^ LENGTH('a) * 2 ^ LENGTH('a))"
proof -
  define w :: nat where "w = 2 ^ LENGTH('a)"
  define t1 where "t1 = (ucast c0 :: 'a bit0 word) * ucast n"
  define t2 where "t2 = drop_bit (LIMB_SIZE TYPE('a)) t1 + (ucast c1 :: 'a bit0 word) * ucast n"
  have ut1: "unat t1 = unat c0 * unat n" by (simp add: t1_def unat_dbl_mul)
  have "unat c1 * unat n + 0 + unat t1 div w < w * w"
    unfolding w_def
    by (rule mult_lt_sq) (simp_all add: unat_lt_radix unat_dbl_lt less_mult_imp_div_less)
  then have ut2: "unat t2 = unat c0 * unat n div w + unat c1 * unat n"
    unfolding t2_def
    by (subst unat_dbl_add) (simp_all add: unat_dbl_drop unat_dbl_mul ut1 w_def)
  have r: "muln2 (c0, c1) n = (ucast t1, ucast t2)"
    by (simp add: muln2_def Let_def t1_def t2_def)
  have "val2 (ucast t1 :: 'a word, ucast t2 :: 'a word) =
      (unat c0 * unat n) mod w + w * ((unat c0 * unat n div w + unat c1 * unat n) mod w)"
    by (simp add: val2_def unat_dbl_lo ut1 ut2 w_def)
  also have "\<dots> = ((unat c0 * unat n) mod w + w * (unat c0 * unat n div w + unat c1 * unat n)) mod (w * w)"
    by (rule mod2_digits [symmetric]) (simp add: w_def)
  also have "(unat c0 * unat n) mod w + w * (unat c0 * unat n div w + unat c1 * unat n)
      = (unat c0 + w * unat c1) * unat n"
  proof -
    have "(unat c0 * unat n) mod w + w * (unat c0 * unat n div w) = unat c0 * unat n" by simp
    then show ?thesis by (simp add: algebra_simps)
  qed
  finally show ?thesis by (simp add: r val2_def w_def)
qed

lemma mulnadd3_val:
  "val3 (mulnadd3 (c0, c1, c2) (d0, d1, d2) (n::'a::len word)) =
     (unat c0 + 2 ^ LENGTH('a) * unat c1 + val3 (d0, d1, d2) * unat n)
       mod (2 ^ LENGTH('a) * 2 ^ LENGTH('a) * 2 ^ LENGTH('a))"
proof -
  define w :: nat where "w = 2 ^ LENGTH('a)"
  define t1 where "t1 = (ucast d0 :: 'a bit0 word) * ucast n + ucast c0"
  define t2 where "t2 = drop_bit (LIMB_SIZE TYPE('a)) t1 + ((ucast d1 :: 'a bit0 word) * ucast n + ucast c1)"
  define t3 where "t3 = drop_bit (LIMB_SIZE TYPE('a)) t2"
  have w2: "2 \<le> w" unfolding w_def
    by (metis One_nat_def Suc_leI len_gt_0 power_one_right power_increasing one_le_numeral)
  have "unat d0 * unat n + unat c0 + 0 < w * w"
    unfolding w_def by (rule mult_lt_sq) (simp_all add: unat_lt_radix)
  then have ut1: "unat t1 = unat d0 * unat n + unat c0"
    unfolding t1_def by (subst unat_dbl_add) (simp_all add: unat_dbl_mul unat_ucast_dbl w_def)
  have lt2: "unat d1 * unat n + unat c1 + unat t1 div w < w * w"
    unfolding w_def
    by (rule mult_lt_sq) (simp_all add: unat_lt_radix unat_dbl_lt less_mult_imp_div_less)
  have "unat d1 * unat n + unat c1 + 0 < w * w"
    unfolding w_def by (rule mult_lt_sq) (simp_all add: unat_lt_radix)
  then have ui: "unat ((ucast d1 :: 'a bit0 word) * ucast n + ucast c1) = unat d1 * unat n + unat c1"
    by (subst unat_dbl_add) (simp_all add: unat_dbl_mul unat_ucast_dbl w_def)
  have ut2: "unat t2 = unat t1 div w + (unat d1 * unat n + unat c1)"
    unfolding t2_def using lt2
    by (subst unat_dbl_add) (simp_all add: unat_dbl_drop ui w_def)
  have ut3: "unat t3 = unat t2 div w"
    by (simp add: t3_def unat_dbl_drop w_def)
  have u3: "unat (ucast (t3 + ucast (d2 * n)) :: 'a word) = (unat t2 div w + unat d2 * unat n) mod w"
  proof -
    have "unat (ucast (t3 + ucast (d2 * n)) :: 'a word)
        = ((unat t3 + unat (d2 * n)) mod (w * w)) mod w"
      by (simp add: unat_dbl_lo unat_word_ariths(1) unat_ucast_dbl pow_dbl w_def)
    also have "\<dots> = (unat t3 + unat (d2 * n)) mod w"
      by (simp add: mod_mod_cancel)
    also have "\<dots> = (unat t2 div w + unat d2 * unat n) mod w"
      by (simp add: ut3 unat_word_ariths(2) w_def mod_add_right_eq)
    finally show ?thesis .
  qed
  have r: "mulnadd3 (c0, c1, c2) (d0, d1, d2) n = (ucast t1, ucast t2, ucast (t3 + ucast (d2 * n)))"
    by (simp add: mulnadd3_def Let_def t1_def t2_def t3_def)
  have u1: "unat (ucast t1 :: 'a word) = unat t1 mod w"
    and u2: "unat (ucast t2 :: 'a word) = unat t2 mod w"
    by (simp_all only: unat_dbl_lo w_def)
  have "val3 (ucast t1 :: 'a word, ucast t2 :: 'a word, ucast (t3 + ucast (d2 * n)) :: 'a word) =
      unat t1 mod w + w * (unat t2 mod w) + w * (w * ((unat t2 div w + unat d2 * unat n) mod w))"
    unfolding val3_def prod.case w_def [symmetric] by (simp only: u1 u2 u3)
  also have "\<dots> = (unat t1 mod w + w * (unat t2 mod w) + w * (w * (unat t2 div w + unat d2 * unat n))) mod (w * w * w)"
    by (rule mod3_digits [symmetric]) (simp_all add: w_def)
  also have "unat t1 mod w + w * (unat t2 mod w) + w * (w * (unat t2 div w + unat d2 * unat n))
      = unat c0 + w * unat c1 + (unat d0 + w * unat d1 + w * (w * unat d2)) * unat n"
  proof -
    have "w * (unat t2 mod w) + w * (w * (unat t2 div w)) = w * unat t2"
      by (simp add: distrib_left [symmetric])
    moreover have "w * unat t2 = w * (unat t1 div w) + w * (unat d1 * unat n) + w * unat c1"
      by (simp only: ut2 distrib_left add.assoc)
    moreover have "unat t1 mod w + w * (unat t1 div w) = unat d0 * unat n + unat c0"
      by (simp add: ut1)
    moreover have "(unat d0 + w * unat d1 + w * (w * unat d2)) * unat n
        = unat d0 * unat n + w * (unat d1 * unat n) + w * (w * (unat d2 * unat n))"
      by (simp add: algebra_simps)
    moreover have "w * (w * (unat t2 div w + unat d2 * unat n))
        = w * (w * (unat t2 div w)) + w * (w * (unat d2 * unat n))"
      by (simp add: distrib_left)
    ultimately show ?thesis by linarith
  qed
  finally show ?thesis by (simp add: r val3_def w_def)
qed

section \<open>Full reduction and the overflow test\<close>

lemma limbs_value_append:
  "limbs_value (xs @ ys) = limbs_value xs + (2 ^ LENGTH('a)) ^ length xs * limbs_value (ys :: 'a::len word list)"
  by (induction xs) (simp_all add: algebra_simps)

lemma limbs_value_lt: "limbs_value (xs :: 'a::len word list) < (2 ^ LENGTH('a)) ^ length xs"
proof (induction xs)
  case Nil
  show ?case by simp
next
  case (Cons x xs)
  have "unat x + 2 ^ LENGTH('a) * limbs_value xs < 2 ^ LENGTH('a) + 2 ^ LENGTH('a) * limbs_value xs"
    using unat_lt_radix [of x] by simp
  also have "\<dots> = 2 ^ LENGTH('a) * (limbs_value xs + 1)" by simp
  also have "\<dots> \<le> 2 ^ LENGTH('a) * (2 ^ LENGTH('a)) ^ length xs"
    using Cons.IH by (intro mult_le_mono2) simp
  finally show ?case by simp
qed

lemma take_Suc_update: "k < length l \<Longrightarrow> take (Suc k) (l[k := n]) = take k l @ [n]"
  by (simp add: take_Suc_conv_app_nth)

lemma build_LIMBS: "build_ok TYPE('a::len) \<Longrightarrow> LIMBS TYPE('a) * LENGTH('a) = 3072"
  by (auto simp: build_ok_def LIMBS_def)

lemma build_radix_pow: "build_ok TYPE('a::len) \<Longrightarrow> ((2::nat) ^ LENGTH('a)) ^ LIMBS TYPE('a) = 2 ^ 3072"
  by (simp add: power_mult [symmetric] build_LIMBS mult.commute)

lemma build_radix_ge: "build_ok TYPE('a::len) \<Longrightarrow> (2::nat) ^ 32 \<le> 2 ^ LENGTH('a)"
  by (rule power_increasing) (auto simp: build_ok_def)

lemma unat_MAX_PRIME_DIFF: "build_ok TYPE('a::len) \<Longrightarrow> unat (MAX_PRIME_DIFF :: 'a word) = 1103717"
proof -
  assume b: "build_ok TYPE('a)"
  have "(1103717::nat) < 2 ^ 32" by simp
  then have "(1103717::nat) < 2 ^ LENGTH('a)" using build_radix_ge [OF b] by linarith
  then show ?thesis by (simp add: MAX_PRIME_DIFF_def take_bit_nat_eq_self)
qed

lemma add2_extract2:
  assumes "add2 (c0, 0) (x::'a::len word) = (n, c')"
  shows "unat n + 2 ^ LENGTH('a) * unat c' = unat c0 + unat x"
proof -
  have "(2::nat) ^ 1 \<le> 2 ^ LENGTH('a)"
    by (rule power_increasing) (simp_all add: Suc_leI)
  then have w: "(2::nat) \<le> 2 ^ LENGTH('a)" by simp
  have "unat c0 + unat x < 2 ^ LENGTH('a) + 2 ^ LENGTH('a)"
    using unat_lt_radix [of c0] unat_lt_radix [of x] by linarith
  also have "\<dots> = 2 * 2 ^ LENGTH('a)" by simp
  also have "\<dots> \<le> 2 ^ LENGTH('a) * 2 ^ LENGTH('a)" using w by (intro mult_le_mono1)
  finally have "unat c0 + unat x < 2 ^ LENGTH('a) * 2 ^ LENGTH('a)" .
  moreover have "val2 (add2 (c0, 0) x) = (val2 (c0, 0) + unat x) mod (2 ^ LENGTH('a) * 2 ^ LENGTH('a))"
    by (rule add2_val)
  moreover have "val2 (c0, 0::'a word) = unat c0" by (simp add: val2_def)
  ultimately have "val2 (add2 (c0, 0) x) = unat c0 + unat x"
    by simp
  then show ?thesis using assms by (simp add: val2_def)
qed

lemma FullReduce_loop:
  fixes d :: "'a::len word Num3072"
  assumes "k \<le> length (limbs d)"
  shows "\<exists>c' d'. fold FullReduce_step [0..<k] (c, d) = (c', d')
        \<and> length (limbs d') = length (limbs d)
        \<and> drop k (limbs d') = drop k (limbs d)
        \<and> limbs_value (take k (limbs d')) + (2 ^ LENGTH('a)) ^ k * unat c'
            = limbs_value (take k (limbs d)) + unat c"
  using assms
proof (induction k)
  case 0
  show ?case by simp
next
  case (Suc k)
  then obtain c' d' where f: "fold FullReduce_step [0..<k] (c, d) = (c', d')"
    and len: "length (limbs d') = length (limbs d)"
    and dr: "drop k (limbs d') = drop k (limbs d)"
    and v: "limbs_value (take k (limbs d')) + (2 ^ LENGTH('a)) ^ k * unat c'
            = limbs_value (take k (limbs d)) + unat c"
    by auto
  have k: "k < length (limbs d)" using Suc.prems by simp
  have nth: "limbs d' ! k = limbs d ! k"
  proof -
    have "hd (drop k (limbs d')) = hd (drop k (limbs d))" by (simp only: dr)
    then show ?thesis using k len by (simp add: hd_drop_conv_nth)
  qed
  obtain n c'' where a: "add2 (c', 0) (limbs d ! k) = (n, c'')" by (cases "add2 (c', 0) (limbs d ! k)")
  have st: "FullReduce_step k (c', d') = (c'', d'\<lparr>limbs := (limbs d')[k := n]\<rparr>)"
    by (simp add: FullReduce_step_def Let_def nth a extract2_def)
  have e: "unat n + 2 ^ LENGTH('a) * unat c'' = unat c' + unat (limbs d ! k)"
    by (rule add2_extract2 [OF a])
  have "limbs_value (take (Suc k) ((limbs d')[k := n])) + (2 ^ LENGTH('a)) ^ Suc k * unat c''
      = limbs_value (take k (limbs d')) + (2 ^ LENGTH('a)) ^ k * (unat n + 2 ^ LENGTH('a) * unat c'')"
    using k len by (simp add: take_Suc_update limbs_value_append algebra_simps)
  also have "\<dots> = limbs_value (take k (limbs d')) + (2 ^ LENGTH('a)) ^ k * unat c'
        + (2 ^ LENGTH('a)) ^ k * unat (limbs d ! k)"
    by (simp only: e distrib_left add.assoc)
  also have "\<dots> = limbs_value (take (Suc k) (limbs d)) + unat c"
    using k v by (simp add: take_Suc_conv_app_nth limbs_value_append)
  finally have v': "limbs_value (take (Suc k) ((limbs d')[k := n])) + (2 ^ LENGTH('a)) ^ Suc k * unat c''
      = limbs_value (take (Suc k) (limbs d)) + unat c" .
  have dr': "drop (Suc k) ((limbs d')[k := n]) = drop (Suc k) (limbs d)"
  proof -
    have "tl (drop k (limbs d')) = tl (drop k (limbs d))" by (simp only: dr)
    then have "drop (Suc k) (limbs d') = drop (Suc k) (limbs d)" by (simp add: drop_Suc tl_drop)
    then show ?thesis by (simp add: drop_update_cancel)
  qed
  show ?case
    using v' dr' len by (simp add: f st del: power_Suc)
qed

lemma FullReduce_length: "length (limbs d) = LIMBS TYPE('a) \<Longrightarrow> length (limbs (FullReduce (d::'a::len word Num3072))) = LIMBS TYPE('a)"
  using FullReduce_loop [of "LIMBS TYPE('a)" d MAX_PRIME_DIFF]
  by (auto simp: FullReduce_def)

lemma FullReduce_value:
  fixes d :: "'a::len word Num3072"
  assumes len: "length (limbs d) = LIMBS TYPE('a)" and b: "build_ok TYPE('a)"
  shows "num_value (FullReduce d) = (num_value d + 1103717) mod 2 ^ 3072"
proof -
  obtain c' d' where f: "fold FullReduce_step [0..<LIMBS TYPE('a)] (MAX_PRIME_DIFF, d) = (c', d')"
    and len': "length (limbs d') = length (limbs d)"
    and v: "limbs_value (take (LIMBS TYPE('a)) (limbs d')) + (2 ^ LENGTH('a)) ^ LIMBS TYPE('a) * unat c'
            = limbs_value (take (LIMBS TYPE('a)) (limbs d)) + unat (MAX_PRIME_DIFF :: 'a word)"
    using FullReduce_loop [of "LIMBS TYPE('a)" d MAX_PRIME_DIFF] len by auto
  have v': "limbs_value (limbs d') + 2 ^ 3072 * unat c' = limbs_value (limbs d) + 1103717"
    using v len len' by (simp add: build_radix_pow [OF b] unat_MAX_PRIME_DIFF [OF b])
  have lt: "limbs_value (limbs d') < 2 ^ 3072"
    using limbs_value_lt [of "limbs d'"] len len' by (simp add: build_radix_pow [OF b])
  have "(limbs_value (limbs d) + 1103717) mod 2 ^ 3072 = (limbs_value (limbs d') + 2 ^ 3072 * unat c') mod 2 ^ 3072"
    by (simp only: v')
  also have "\<dots> = limbs_value (limbs d')" using lt by simp
  finally show ?thesis by (simp add: FullReduce_def f num_value_def)
qed

lemma top_digit_split:
  fixes u v w m :: nat
  assumes u: "u < w" and v: "v < m" and c: "c < w"
  shows "(w * m - c \<le> u + w * v) = (w - 1 - c < u \<and> v = m - 1)"
proof (cases "v = m - 1")
  case True
  have "w * m = w * (m - 1) + w" using v by (cases m) simp_all
  then show ?thesis using True u c by auto
next
  case False
  then have "v + 2 \<le> m" using v by simp
  then have "w * (v + 2) \<le> w * m" by (rule mult_le_mono2)
  then have "w * v + 2 * w \<le> w * m" by (simp add: algebra_simps)
  then show ?thesis using False u c by auto
qed

lemma unat_limb_max: "unat (limb_max :: 'a::len word) = 2 ^ LENGTH('a) - 1"
  by (simp add: limb_max_def unsigned_minus_1_eq_mask mask_eq_exp_minus_1)

lemma limb_max_iff: "(x = (limb_max :: 'a::len word)) = (unat x = 2 ^ LENGTH('a) - 1)"
  by (simp add: word_unat_eq_iff unat_limb_max)

lemma limbs_value_max_iff:
  "(limbs_value (xs :: 'a::len word list) = (2 ^ LENGTH('a)) ^ length xs - 1) = (\<forall>x\<in>set xs. x = limb_max)"
proof (induction xs)
  case Nil
  show ?case by simp
next
  case (Cons x xs)
  define w :: nat where "w = 2 ^ LENGTH('a)"
  define m where "m = w ^ length xs"
  have w: "0 < w" by (simp add: w_def)
  have m: "0 < m" using w by (simp add: m_def)
  have u: "unat x < w" by (simp add: w_def unat_lt_radix)
  have v: "limbs_value xs < m" unfolding m_def w_def by (rule limbs_value_lt)
  have wm: "w * m = w * (m - 1) + w" using m by (cases m) simp_all
  have "(unat x + w * limbs_value xs = w * m - 1) = (unat x = w - 1 \<and> limbs_value xs = m - 1)"
  proof (cases "limbs_value xs = m - 1")
    case True
    then show ?thesis using wm u by auto
  next
    case False
    then have "limbs_value xs + 2 \<le> m" using v by simp
    then have "w * (limbs_value xs + 2) \<le> w * m" by (rule mult_le_mono2)
    then have "w * limbs_value xs + 2 * w \<le> w * m" by (simp add: algebra_simps)
    then show ?thesis using False u by auto
  qed
  then show ?case
    using Cons.IH by (simp add: limb_max_iff w_def [symmetric] m_def [symmetric])
qed

lemma IsOverflow_iff:
  fixes d :: "'a::len word Num3072"
  assumes len: "length (limbs d) = LIMBS TYPE('a)" and b: "build_ok TYPE('a)"
  shows "IsOverflow d = (prime_P \<le> num_value d)"
proof -
  define w :: nat where "w = 2 ^ LENGTH('a)"
  have N: "0 < LIMBS TYPE('a)" by (simp add: LIMBS_def)
  then obtain x0 rest where xs: "limbs d = x0 # rest"
    using len by (cases "limbs d") auto
  have lr: "Suc (length rest) = LIMBS TYPE('a)" using len xs by simp
  define m where "m = w ^ length rest"
  have wm: "w * m = 2 ^ 3072"
    using build_radix_pow [OF b] lr [symmetric] by (simp add: m_def w_def)
  have C: "unat (MAX_PRIME_DIFF :: 'a word) = 1103717" by (rule unat_MAX_PRIME_DIFF [OF b])
  have Cw: "(1103717::nat) < w"
    using unat_lt_radix [of "MAX_PRIME_DIFF :: 'a word"] by (simp add: C w_def)
  have le: "(MAX_PRIME_DIFF :: 'a word) \<le> limb_max"
    by (simp add: word_le_nat_alt unat_limb_max C) (use Cw in \<open>simp add: w_def\<close>)
  have sub: "unat (limb_max - MAX_PRIME_DIFF :: 'a word) = w - 1 - 1103717"
    using le by (simp add: unat_sub unat_limb_max C w_def)
  have c0: "(\<not> x0 \<le> limb_max - MAX_PRIME_DIFF) = (w - 1 - 1103717 < unat x0)"
    by (simp add: word_le_nat_alt sub not_le)
  have all: "list_all (\<lambda>i. limbs d ! i = limb_max) [1..<LIMBS TYPE('a)] = (\<forall>x\<in>set rest. x = limb_max)"
  proof -
    have "list_all (\<lambda>i. limbs d ! i = limb_max) [1..<LIMBS TYPE('a)]
        = (\<forall>i. 1 \<le> i \<and> i < Suc (length rest) \<longrightarrow> (x0 # rest) ! i = limb_max)"
      by (auto simp: list_all_iff xs lr)
    also have "\<dots> = (\<forall>j<length rest. rest ! j = limb_max)"
    proof
      assume h: "\<forall>i. 1 \<le> i \<and> i < Suc (length rest) \<longrightarrow> (x0 # rest) ! i = limb_max"
      show "\<forall>j<length rest. rest ! j = limb_max"
      proof (intro allI impI)
        fix j assume "j < length rest"
        then show "rest ! j = limb_max" using h [rule_format, of "Suc j"] by simp
      qed
    next
      assume h: "\<forall>j<length rest. rest ! j = limb_max"
      show "\<forall>i. 1 \<le> i \<and> i < Suc (length rest) \<longrightarrow> (x0 # rest) ! i = limb_max"
      proof (intro allI impI)
        fix i assume "1 \<le> i \<and> i < Suc (length rest)"
        then show "(x0 # rest) ! i = limb_max" using h [rule_format, of "i - 1"] by (cases i) simp_all
      qed
    qed
    also have "\<dots> = (\<forall>x\<in>set rest. x = limb_max)"
      by (simp add: all_set_conv_all_nth)
    finally show ?thesis .
  qed
  have "IsOverflow d = (w - 1 - 1103717 < unat x0 \<and> limbs_value rest = m - 1)"
    using all c0 limbs_value_max_iff [of rest]
    by (auto simp: IsOverflow_def xs m_def w_def)
  also have "\<dots> = (w * m - 1103717 \<le> unat x0 + w * limbs_value rest)"
  proof (rule top_digit_split [symmetric])
    show "unat x0 < w" by (simp add: w_def unat_lt_radix)
    show "limbs_value rest < m" unfolding m_def w_def by (rule limbs_value_lt)
    show "(1103717::nat) < w" by (rule Cw)
  qed
  finally show ?thesis
    by (simp add: num_value_def xs prime_P_def wm w_def [symmetric])
qed

lemma IsOverflow_limbs:
  fixes d :: "'a::len word Num3072"
  assumes b: "build_ok TYPE('a)"
  shows "IsOverflow d = (2 ^ LENGTH('a) - 1 - 1103717 < unat (limbs d ! 0)
      \<and> (\<forall>i. 1 \<le> i \<and> i < LIMBS TYPE('a) \<longrightarrow> unat (limbs d ! i) = 2 ^ LENGTH('a) - 1))"
proof -
  have C: "unat (MAX_PRIME_DIFF :: 'a word) = 1103717" by (rule unat_MAX_PRIME_DIFF [OF b])
  have Cw: "(1103717::nat) < 2 ^ LENGTH('a)"
    using unat_lt_radix [of "MAX_PRIME_DIFF :: 'a word"] by (simp add: C)
  have le: "(MAX_PRIME_DIFF :: 'a word) \<le> limb_max"
    using Cw by (simp add: word_le_nat_alt unat_limb_max C)
  have sub: "unat (limb_max - MAX_PRIME_DIFF :: 'a word) = 2 ^ LENGTH('a) - 1 - 1103717"
    using le by (simp add: unat_sub unat_limb_max C)
  have c0: "(\<not> limbs d ! 0 \<le> limb_max - MAX_PRIME_DIFF) = (2 ^ LENGTH('a) - 1 - 1103717 < unat (limbs d ! 0))"
    by (simp add: word_le_nat_alt sub not_le)
  show ?thesis
    using c0 by (auto simp: IsOverflow_def list_all_iff limb_max_iff)
qed

text \<open>
  C5. For a \<open>Num3072\<close> of either build, with value \<open>v\<close> (always below \<open>2^3072\<close>),
  \<open>IsOverflow\<close> returns true if and only if \<open>v \<ge> P\<close>, and if and only if limb 0
  exceeds \<open>2^w - 1 - 1103717\<close> and every limb at index 1 to \<open>LIMBS - 1\<close> is \<open>2^w - 1\<close>.
\<close>

theorem IsOverflow_iff_value_ge_P:
  fixes d :: "'a::len limb_t Num3072"
  assumes "build_ok TYPE('a)" and "length (limbs d) = LIMBS TYPE('a)"
  shows "num_value d < 2 ^ 3072
    \<and> IsOverflow d = (prime_P \<le> num_value d)
    \<and> IsOverflow d = (2 ^ LENGTH('a) - 1 - 1103717 < unat (limbs d ! 0)
         \<and> (\<forall>i. 1 \<le> i \<and> i < LIMBS TYPE('a) \<longrightarrow> unat (limbs d ! i) = 2 ^ LENGTH('a) - 1))"
proof -
  have "num_value d < 2 ^ 3072"
    using limbs_value_lt [of "limbs d"] assms by (simp add: num_value_def build_radix_pow)
  moreover have "IsOverflow d = (prime_P \<le> num_value d)"
    using assms by (simp add: IsOverflow_iff)
  ultimately show ?thesis
    using IsOverflow_limbs [OF assms(1), of d] by blast
qed

lemma build_ok_64: "build_ok TYPE(64)"
  by (simp add: build_ok_def)

lemma all_max_64_length: "length (limbs all_max_64) = LIMBS TYPE(64)"
  by (simp add: all_max_64_def LIMBS_def)

lemma all_max_64_value: "num_value all_max_64 = 2 ^ 3072 - 1"
proof -
  have "limbs_value (replicate 48 (limb_max :: 64 word)) = (2 ^ LENGTH(64)) ^ length (replicate 48 (limb_max :: 64 word)) - 1"
    by (subst limbs_value_max_iff) simp
  then show ?thesis
    by (simp add: num_value_def all_max_64_def limb_max_def power_mult [symmetric])
qed

theorem IsOverflow_iff_value_ge_P_witness:
  "build_ok TYPE(64) \<and> length (limbs all_max_64) = LIMBS TYPE(64)
     \<and> IsOverflow all_max_64 \<and> prime_P \<le> num_value all_max_64"
proof -
  have "prime_P \<le> num_value all_max_64"
    by (simp add: all_max_64_value prime_P_def)
  then show ?thesis
    using IsOverflow_iff_value_ge_P [OF build_ok_64 all_max_64_length]
      build_ok_64 all_max_64_length by simp
qed

text \<open>
  C6. For a \<open>Num3072\<close> with value \<open>v\<close>, \<open>FullReduce\<close> computes \<open>(v + 1103717) mod 2^3072\<close>.
  On the overflow window \<open>P \<le> v < 2^3072\<close> that is \<open>v - P\<close>, a canonical value; on a
  value below \<open>P\<close> it is \<open>v + 1103717\<close>, which is not the canonical representative of \<open>v\<close>.
\<close>

theorem FullReduce_subtracts_P_on_overflow:
  fixes d :: "'a::len limb_t Num3072"
  assumes "build_ok TYPE('a)" and "length (limbs d) = LIMBS TYPE('a)"
  shows "num_value (FullReduce d) = (num_value d + 1103717) mod 2 ^ 3072
    \<and> (prime_P \<le> num_value d \<longrightarrow>
          num_value (FullReduce d) = num_value d - prime_P \<and> num_value (FullReduce d) < prime_P)
    \<and> (num_value d < prime_P \<longrightarrow> num_value (FullReduce d) = num_value d + 1103717)"
proof -
  define M :: nat where "M = 2 ^ 3072"
  have v: "num_value d < M"
    using limbs_value_lt [of "limbs d"] assms by (simp add: num_value_def build_radix_pow M_def)
  have r: "num_value (FullReduce d) = (num_value d + 1103717) mod M"
    using assms by (simp add: FullReduce_value M_def)
  have P: "prime_P + 1103717 = M" by (simp add: prime_P_def M_def)
  have big: "num_value (FullReduce d) = num_value d - prime_P \<and> num_value (FullReduce d) < prime_P"
    if ge: "prime_P \<le> num_value d"
  proof -
    have "num_value d + 1103717 = (num_value d - prime_P) + M" using ge P by linarith
    then have "(num_value d + 1103717) mod M = (num_value d - prime_P) mod M" by simp
    moreover have "num_value d - prime_P < 1103717" using v P ge by linarith
    moreover have "(1103717::nat) < prime_P" by (simp add: prime_P_def)
    moreover have "prime_P < M" using P by linarith
    ultimately show ?thesis using r by simp
  qed
  have small: "num_value (FullReduce d) = num_value d + 1103717" if "num_value d < prime_P"
  proof -
    have "num_value d + 1103717 < M" using that P by linarith
    then show ?thesis using r by simp
  qed
  show ?thesis using r big small unfolding M_def by blast
qed

theorem FullReduce_subtracts_P_on_overflow_witness:
  "build_ok TYPE(64) \<and> length (limbs all_max_64) = LIMBS TYPE(64)
     \<and> prime_P \<le> num_value all_max_64
     \<and> num_value (FullReduce all_max_64) = 1103716"
proof -
  have ge: "prime_P \<le> num_value all_max_64"
    by (simp add: all_max_64_value prime_P_def)
  have "num_value all_max_64 - prime_P = 1103716"
    by (simp add: all_max_64_value prime_P_def)
  then show ?thesis
    using FullReduce_subtracts_P_on_overflow [OF build_ok_64 all_max_64_length]
      build_ok_64 all_max_64_length ge by simp
qed

text \<open>
  C9, as amended. \<open>mulnadd3\<close> sets the accumulator to \<open>[c0, c1] + [d0, d1, d2] \<cdot> n\<close> modulo
  \<open>2^(3w)\<close>: the old \<open>c2\<close> is overwritten, not added (the source notes that \<open>c2\<close> is 0
  initially). With \<open>c2 = 0\<close> this is the old \<open>[c0, c1, c2]\<close> plus the product.
\<close>

theorem mulnadd3_adds_product_to_low_limbs:
  fixes n :: "'a::len limb_t"
  shows "val3 (mulnadd3 (c0, c1, c2) d n) = (val2 (c0, c1) + val3 d * unat n) mod 2 ^ (3 * LENGTH('a))"
proof -
  have "(2::nat) ^ (3 * LENGTH('a)) = 2 ^ LENGTH('a) * 2 ^ LENGTH('a) * 2 ^ LENGTH('a)"
    by (simp add: power_add [symmetric])
  then show ?thesis
    by (cases d) (simp only: mulnadd3_val val2_def prod.case)
qed

text \<open>
  C9 as stated fails when \<open>c2\<close> is not 0: adding \<open>[0, 0, 0] \<cdot> 0\<close> to the accumulator
  \<open>[0, 0, 1]\<close> gives \<open>[0, 0, 0]\<close>.
\<close>

theorem mulnadd3_overwrites_c2:
  "val3 (mulnadd3 (0, 0, 1 :: 64 limb_t) (0, 0, 0) 0)
     \<noteq> (val3 (0, 0, 1 :: 64 limb_t) + val3 (0, 0, 0 :: 64 limb_t) * unat (0 :: 64 limb_t)) mod 2 ^ (3 * 64)"
  by (simp add: mulnadd3_def val3_def LIMB_SIZE_def)

section \<open>Squaring is multiplication by itself\<close>

lemma val3_lt: "val3 (c :: 'a::len word \<times> 'a word \<times> 'a word) < 2 ^ LENGTH('a) * 2 ^ LENGTH('a) * 2 ^ LENGTH('a)"
proof (cases c)
  case (fields c0 c1 c2)
  have "(unat c0 + 2 ^ LENGTH('a) * unat c1 + 2 ^ LENGTH('a) * (2 ^ LENGTH('a) * unat c2))
        mod (2 ^ LENGTH('a) * 2 ^ LENGTH('a) * 2 ^ LENGTH('a))
      = unat c0 + 2 ^ LENGTH('a) * unat c1 + 2 ^ LENGTH('a) * (2 ^ LENGTH('a) * (unat c2 mod 2 ^ LENGTH('a)))"
    by (rule mod3_digits) (simp_all add: unat_lt_radix)
  then have "val3 c mod (2 ^ LENGTH('a) * 2 ^ LENGTH('a) * 2 ^ LENGTH('a)) = val3 c"
    by (simp add: val3_def fields unat_lt_radix)
  moreover have "val3 c mod (2 ^ LENGTH('a) * 2 ^ LENGTH('a) * 2 ^ LENGTH('a))
      < 2 ^ LENGTH('a) * 2 ^ LENGTH('a) * 2 ^ LENGTH('a)"
    by (rule mod_less_divisor) simp
  ultimately show ?thesis by simp
qed

lemma val2_lt: "val2 (c :: 'a::len word \<times> 'a word) < 2 ^ LENGTH('a) * 2 ^ LENGTH('a)"
proof (cases c)
  case (Pair c0 c1)
  have "(unat c0 + 2 ^ LENGTH('a) * unat c1) mod (2 ^ LENGTH('a) * 2 ^ LENGTH('a))
      = unat c0 + 2 ^ LENGTH('a) * (unat c1 mod 2 ^ LENGTH('a))"
    by (rule mod2_digits) (simp add: unat_lt_radix)
  then have "val2 c mod (2 ^ LENGTH('a) * 2 ^ LENGTH('a)) = val2 c"
    by (simp add: val2_def Pair unat_lt_radix)
  moreover have "val2 c mod (2 ^ LENGTH('a) * 2 ^ LENGTH('a)) < 2 ^ LENGTH('a) * 2 ^ LENGTH('a)"
    by (rule mod_less_divisor) simp
  ultimately show ?thesis by simp
qed

lemma digits_unique:
  fixes a b :: nat
  assumes "a < w" "a' < w" "a + w * b = a' + w * b'"
  shows "a = a' \<and> b = b'"
proof -
  have "(a + w * b) mod w = (a' + w * b') mod w" by (simp only: assms(3))
  then have a: "a = a'" using assms(1,2) by simp
  have "(a + w * b) div w = (a' + w * b') div w" by (simp only: assms(3))
  then have "b = b'" using assms(1,2) by simp
  then show ?thesis using a by simp
qed

lemma val3_inj:
  fixes c c' :: "'a::len word \<times> 'a word \<times> 'a word"
  assumes "val3 c = val3 c'"
  shows "c = c'"
proof (cases c, cases c')
  fix c0 c1 c2 e0 e1 e2
  assume c: "c = (c0, c1, c2)" and c': "c' = (e0, e1, e2)"
  have eq: "unat c0 + 2 ^ LENGTH('a) * (unat c1 + 2 ^ LENGTH('a) * unat c2)
      = unat e0 + 2 ^ LENGTH('a) * (unat e1 + 2 ^ LENGTH('a) * unat e2)"
    using assms by (simp add: val3_def c c' algebra_simps)
  have 0: "unat c0 = unat e0 \<and> unat c1 + 2 ^ LENGTH('a) * unat c2 = unat e1 + 2 ^ LENGTH('a) * unat e2"
    by (rule digits_unique [OF _ _ eq]) (simp_all add: unat_lt_radix)
  then have 1: "unat c1 = unat e1 \<and> unat c2 = unat e2"
    by (intro digits_unique [where w = "2 ^ LENGTH('a)"]) (simp_all add: unat_lt_radix)
  show ?thesis using 0 1 by (simp add: c c' word_unat_eq_iff)
qed

lemma fold_muladd3_val:
  fixes c :: "'a::len word \<times> 'a word \<times> 'a word"
  shows "val3 (fold (\<lambda>i c. muladd3 c (f i) (g i)) is c)
      = (val3 c + (\<Sum>i\<leftarrow>is. unat (f i) * unat (g i))) mod (2 ^ LENGTH('a) * 2 ^ LENGTH('a) * 2 ^ LENGTH('a))"
proof (induction "is" arbitrary: c)
  case Nil
  then show ?case using val3_lt [of c] by simp
next
  case (Cons i "is")
  show ?case
    by (simp add: Cons.IH muladd3_val' mod_add_left_eq add.assoc)
qed

lemma fold_muldbladd3_val:
  fixes c :: "'a::len word \<times> 'a word \<times> 'a word"
  shows "val3 (fold (\<lambda>i c. muldbladd3 c (f i) (g i)) is c)
      = (val3 c + (\<Sum>i\<leftarrow>is. 2 * (unat (f i) * unat (g i)))) mod (2 ^ LENGTH('a) * 2 ^ LENGTH('a) * 2 ^ LENGTH('a))"
proof (induction "is" arbitrary: c)
  case Nil
  then show ?case using val3_lt [of c] by simp
next
  case (Cons i "is")
  show ?case
    by (simp add: Cons.IH muldbladd3_val mod_add_left_eq add.assoc)
qed

lemma sum_rev_lessThan: "(\<Sum>i<h. G (a + (h - Suc i))) = (\<Sum>i<h. (G (a + i) :: nat))"
  by (rule sum.nat_diff_reindex [of "\<lambda>i. G (a + i)" h])

lemma sym_sum:
  fixes f :: "nat \<Rightarrow> nat"
  shows "(\<Sum>i<n. f i * f (n - 1 - i))
      = 2 * (\<Sum>i<n div 2. f i * f (n - 1 - i)) + (if odd n then f (n div 2) * f (n div 2) else 0)"
proof -
  define h where "h = n div 2"
  define F where "F i = f i * f (n - 1 - i)" for i
  have rev: "F (n - 1 - i) = F i" if "i < n" for i
    using that by (simp add: F_def mult.commute)
  have upper: "(\<Sum>i = n - h..<n. F i) = (\<Sum>i<h. F i)"
  proof -
    have hn: "h \<le> n" by (simp add: h_def)
    have "(\<Sum>i = n - h..<n. F i) = (\<Sum>i = 0 + (n - h)..<h + (n - h). F i)" using hn by simp
    also have "\<dots> = (\<Sum>i = 0..<h. F (i + (n - h)))" by (rule sum.shift_bounds_nat_ivl)
    also have "\<dots> = (\<Sum>i<h. F ((n - h) + i))" by (simp add: atLeast0LessThan add.commute)
    also have "\<dots> = (\<Sum>i<h. F ((n - h) + (h - Suc i)))" by (rule sum_rev_lessThan [symmetric])
    also have "\<dots> = (\<Sum>i<h. F i)"
    proof (rule sum.cong)
      fix i assume "i \<in> {..<h}"
      then have i: "i < h" by simp
      then have "(n - h) + (h - Suc i) = n - 1 - i" using hn by simp
      moreover have "i < n" using i hn by simp
      ultimately show "F ((n - h) + (h - Suc i)) = F i" using rev by simp
    qed simp
    finally show ?thesis .
  qed
  show ?thesis
  proof (cases "odd n")
    case False
    then have n: "n = h + h" by (auto simp: h_def elim: evenE)
    have "(\<Sum>i<n. F i) = (\<Sum>i = 0..<h. F i) + (\<Sum>i = h..<n. F i)"
      unfolding lessThan_atLeast0 by (rule sum.atLeastLessThan_concat [symmetric]) (simp_all add: n)
    moreover have "n - h = h" using n by simp
    ultimately have "(\<Sum>i<n. F i) = 2 * (\<Sum>i<h. F i)"
      using upper by (simp add: atLeast0LessThan)
    then show ?thesis using False by (simp add: F_def h_def)
  next
    case True
    then have n: "n = Suc (h + h)" by (auto simp: h_def elim: oddE)
    have "(\<Sum>i<n. F i) = (\<Sum>i = 0..<Suc h. F i) + (\<Sum>i = Suc h..<n. F i)"
      unfolding lessThan_atLeast0 by (rule sum.atLeastLessThan_concat [symmetric]) (simp_all add: n)
    moreover have "n - h = Suc h" using n by simp
    moreover have "F h = f h * f h" using n by (simp add: F_def)
    ultimately have "(\<Sum>i<n. F i) = 2 * (\<Sum>i<h. F i) + f h * f h"
      using upper by (simp add: atLeast0LessThan)
    then show ?thesis using True by (simp add: F_def h_def)
  qed
qed

lemma sum_list_upt0: "(\<Sum>i\<leftarrow>[0..<n]. (F i :: nat)) = (\<Sum>i<n. F i)"
  by (simp add: interv_sum_list_conv_sum_set_nat atLeast0LessThan)

lemma sym_fold:
  fixes f :: "nat \<Rightarrow> 'a::len word"
  assumes b: "b = odd n"
  shows "(if b then muladd3 (fold (\<lambda>i d. muldbladd3 d (f i) (f (n - 1 - i))) [0..<n div 2] c)
                      (f (n div 2)) (f (n - 1 - n div 2))
          else fold (\<lambda>i d. muldbladd3 d (f i) (f (n - 1 - i))) [0..<n div 2] c)
       = fold (\<lambda>i d. muladd3 d (f i) (f (n - 1 - i))) [0..<n] c"
proof (rule val3_inj)
  define W :: nat where "W = 2 ^ LENGTH('a) * 2 ^ LENGTH('a) * 2 ^ LENGTH('a)"
  define u where "u i = unat (f i)" for i
  define D where "D = fold (\<lambda>i d. muldbladd3 d (f i) (f (n - 1 - i))) [0..<n div 2] c"
  have D: "val3 D = (val3 c + 2 * (\<Sum>i<n div 2. u i * u (n - 1 - i))) mod W"
    unfolding D_def W_def u_def
    by (simp add: fold_muldbladd3_val sum_list_upt0 sum_distrib_left)
  have R: "val3 (fold (\<lambda>i d. muladd3 d (f i) (f (n - 1 - i))) [0..<n] c)
      = (val3 c + (\<Sum>i<n. u i * u (n - 1 - i))) mod W"
    unfolding W_def u_def by (simp add: fold_muladd3_val sum_list_upt0)
  have S: "(\<Sum>i<n. u i * u (n - 1 - i))
      = 2 * (\<Sum>i<n div 2. u i * u (n - 1 - i)) + (if odd n then u (n div 2) * u (n div 2) else 0)"
    by (rule sym_sum)
  show "val3 (if b then muladd3 D (f (n div 2)) (f (n - 1 - n div 2)) else D)
      = val3 (fold (\<lambda>i d. muladd3 d (f i) (f (n - 1 - i))) [0..<n] c)"
  proof (cases "odd n")
    case True
    then have hh: "n - 1 - n div 2 = n div 2" by (auto elim!: oddE)
    have S': "(\<Sum>i<n. u i * u (n - 1 - i))
        = 2 * (\<Sum>i<n div 2. u i * u (n - 1 - i)) + u (n div 2) * u (n div 2)"
      using S True by (simp only: simp_thms if_True)
    have "val3 (if b then muladd3 D (f (n div 2)) (f (n - 1 - n div 2)) else D)
        = val3 (muladd3 D (f (n div 2)) (f (n - 1 - n div 2)))"
      using True b by (simp only: simp_thms if_True)
    also have "\<dots> = (val3 D + unat (f (n div 2)) * unat (f (n - 1 - n div 2))) mod W"
      unfolding W_def by (rule muladd3_val')
    also have "\<dots> = (val3 D + u (n div 2) * u (n div 2)) mod W"
      by (simp only: hh u_def)
    also have "\<dots> = (val3 c + 2 * (\<Sum>i<n div 2. u i * u (n - 1 - i)) + u (n div 2) * u (n div 2)) mod W"
      by (simp only: D mod_add_left_eq)
    also have "\<dots> = (val3 c + (\<Sum>i<n. u i * u (n - 1 - i))) mod W"
      by (simp only: S' add.assoc)
    also have "\<dots> = val3 (fold (\<lambda>i d. muladd3 d (f i) (f (n - 1 - i))) [0..<n] c)"
      by (simp only: R)
    finally show ?thesis .
  next
    case False
    then have S': "(\<Sum>i<n. u i * u (n - 1 - i)) = 2 * (\<Sum>i<n div 2. u i * u (n - 1 - i))"
      using S by (simp only: simp_thms if_False add_0_right)
    have "val3 (if b then muladd3 D (f (n div 2)) (f (n - 1 - n div 2)) else D) = val3 D"
      using False b by (simp only: simp_thms if_False)
    also have "\<dots> = (val3 c + (\<Sum>i<n. u i * u (n - 1 - i))) mod W"
      by (simp only: D S')
    also have "\<dots> = val3 (fold (\<lambda>i d. muladd3 d (f i) (f (n - 1 - i))) [0..<n] c)"
      by (simp only: R)
    finally show ?thesis .
  qed
qed

lemma mul_as_muladd3:
  "mul a (b::'a::len word) = (d0, d1) \<Longrightarrow> (d0, d1, 0) = muladd3 (0, 0, 0) a b"
proof (rule val3_inj)
  assume m: "mul a b = (d0, d1)"
  have "unat a * unat b + 0 + 0 < 2 ^ LENGTH('a) * 2 ^ LENGTH('a)"
    by (rule mult_lt_sq) (simp_all add: unat_lt_radix)
  moreover have "(2::nat) ^ LENGTH('a) * 2 ^ LENGTH('a) \<le> 2 ^ LENGTH('a) * 2 ^ LENGTH('a) * 2 ^ LENGTH('a)"
    by simp
  ultimately have "unat a * unat b < 2 ^ LENGTH('a) * 2 ^ LENGTH('a) * 2 ^ LENGTH('a)"
    by linarith
  moreover have "val3 (muladd3 (0, 0, 0) a b)
      = (val3 (0, 0, 0 :: 'a word) + unat a * unat b) mod (2 ^ LENGTH('a) * 2 ^ LENGTH('a) * 2 ^ LENGTH('a))"
    by (rule muladd3_val')
  moreover have "val3 (0, 0, 0 :: 'a word) = 0" by (simp add: val3_def)
  ultimately have "val3 (muladd3 (0, 0, 0) a b) = unat a * unat b"
    by simp
  then show "val3 (d0, d1, 0) = val3 (muladd3 (0, 0, 0) a b)"
    using mul_val3 [OF m] by simp
qed

lemma and_1_odd: "(int k AND 1 \<noteq> 0) = odd k"
  by (simp add: and_one_eq mod_2_eq_odd)

lemma low_sq:
  fixes xs :: "'a::len word list"
  shows "(if int (j + 1) AND 1 \<noteq> 0
          then muladd3 (fold (\<lambda>i c. muldbladd3 c (xs ! i) (xs ! (j - i))) [0..<(j + 1) div 2] c)
                 (xs ! ((j + 1) div 2)) (xs ! (j - (j + 1) div 2))
          else fold (\<lambda>i c. muldbladd3 c (xs ! i) (xs ! (j - i))) [0..<(j + 1) div 2] c)
       = fold (\<lambda>i c. muladd3 c (xs ! i) (xs ! (j - i))) [0..<j + 1] c"
  using sym_fold [of "int (j + 1) AND 1 \<noteq> 0" "j + 1" "\<lambda>i. xs ! i" c]
  by (simp only: and_1_odd add_diff_cancel_right' simp_thms)

lemma fold_upt_shift: "fold g [k..<n + k] c = fold (\<lambda>i. g (i + k)) [0..<n] c"
proof -
  have "[k..<n + k] = map (\<lambda>i. i + k) [0..<n]" by (simp add: map_add_upt)
  then show ?thesis by (simp add: fold_map comp_def)
qed

lemma high_sq:
  fixes xs :: "'a::len word list"
  assumes N: "even N" and j: "j + 1 < N"
  shows "(if int (j + 1) AND 1 \<noteq> 0
          then muladd3 (fold (\<lambda>i d. muldbladd3 d (xs ! (i + j + 1)) (xs ! (N - 1 - i))) [0..<(N - 1 - j) div 2] c)
                 (xs ! ((N - 1 - j) div 2 + j + 1)) (xs ! (N - 1 - (N - 1 - j) div 2))
          else fold (\<lambda>i d. muldbladd3 d (xs ! (i + j + 1)) (xs ! (N - 1 - i))) [0..<(N - 1 - j) div 2] c)
       = fold (\<lambda>i d. muladd3 d (xs ! i) (xs ! (N + j - i))) [1 + j..<N] c"
proof -
  define n where "n = N - 1 - j"
  define f where "f i = xs ! (i + j + 1)" for i
  have n: "n + (j + 1) = N" "0 < n" using j by (simp_all add: n_def)
  have par: "(int (j + 1) AND 1 \<noteq> 0) = odd n"
  proof -
    have "even (n + (j + 1))" using N n by simp
    then have "odd (j + 1) = odd n" by presburger
    then show ?thesis by (simp only: and_1_odd)
  qed
  have h: "n div 2 < n" using n by simp
  have e1: "fold (\<lambda>i d. muldbladd3 d (xs ! (i + j + 1)) (xs ! (N - 1 - i))) [0..<n div 2] c
      = fold (\<lambda>i d. muldbladd3 d (f i) (f (n - 1 - i))) [0..<n div 2] c"
  proof (rule fold_cong)
    fix i assume "i \<in> set [0..<n div 2]"
    then have "i < n" using h by simp
    then have "n - 1 - i + j + 1 = N - 1 - i" using n by simp
    then show "(\<lambda>d. muldbladd3 d (xs ! (i + j + 1)) (xs ! (N - 1 - i)))
        = (\<lambda>d. muldbladd3 d (f i) (f (n - 1 - i)))"
      by (simp only: f_def)
  qed simp_all
  have m1: "xs ! (n div 2 + j + 1) = f (n div 2)" by (simp only: f_def)
  have "n - 1 - n div 2 + j + 1 = N - 1 - n div 2" using n h by simp
  then have m2: "xs ! (N - 1 - n div 2) = f (n - 1 - n div 2)" by (simp only: f_def)
  have e2: "fold (\<lambda>i d. muladd3 d (xs ! i) (xs ! (N + j - i))) [1 + j..<N] c
      = fold (\<lambda>i d. muladd3 d (f i) (f (n - 1 - i))) [0..<n] c"
  proof -
    have "fold (\<lambda>i d. muladd3 d (xs ! i) (xs ! (N + j - i))) [1 + j..<n + (1 + j)] c
        = fold (\<lambda>i d. muladd3 d (xs ! (i + (1 + j))) (xs ! (N + j - (i + (1 + j))))) [0..<n] c"
      by (rule fold_upt_shift)
    also have "\<dots> = fold (\<lambda>i d. muladd3 d (f i) (f (n - 1 - i))) [0..<n] c"
    proof (rule fold_cong)
      fix i assume "i \<in> set [0..<n]"
      then have "i < n" by simp
      then have "n - 1 - i + j + 1 = N + j - (i + (1 + j))" "i + (1 + j) = i + j + 1" using n by simp_all
      then show "(\<lambda>d. muladd3 d (xs ! (i + (1 + j))) (xs ! (N + j - (i + (1 + j)))))
          = (\<lambda>d. muladd3 d (f i) (f (n - 1 - i)))"
        by (simp only: f_def)
    qed simp_all
    finally show ?thesis using n by (simp only: add.commute [of 1 j])
  qed
  show ?thesis
    unfolding n_def [symmetric] e1 e2 m1 m2 par
    by (rule sym_fold) simp
qed

lemma high_mul:
  fixes xs ys :: "'a::len word list"
  assumes j: "j + 1 < N" and m: "mul (xs ! (1 + j)) (ys ! (N + j - (1 + j))) = (d0, d1)"
  shows "fold (\<lambda>i d. muladd3 d (xs ! i) (ys ! (N + j - i))) [2 + j..<N] (d0, d1, 0)
      = fold (\<lambda>i d. muladd3 d (xs ! i) (ys ! (N + j - i))) [1 + j..<N] (0, 0, 0)"
proof -
  have "[1 + j..<N] = (1 + j) # [2 + j..<N]" using j by (simp add: upt_conv_Cons)
  then show ?thesis using mul_as_muladd3 [OF m] by simp
qed

lemma LIMBS_even: "even (LIMBS TYPE('a::len))"
  by (simp add: LIMBS_def)

lemma Square_step_eq:
  fixes x :: "'a::len word Num3072"
  assumes j: "j + 1 < LIMBS TYPE('a)"
  shows "Square_step x j s = Multiply_step x x j s"
proof -
  obtain c0 c1 tmp where s: "s = (c0, c1, tmp)" by (cases s)
  obtain d0 d1 where m: "mul (limbs x ! (1 + j)) (limbs x ! (LIMBS TYPE('a) + j - (1 + j))) = (d0, d1)"
    by (cases "mul (limbs x ! (1 + j)) (limbs x ! (LIMBS TYPE('a) + j - (1 + j)))")
  show ?thesis
    unfolding Square_step_def Multiply_step_def s prod.case Let_def m
      high_sq [OF LIMBS_even j] low_sq high_mul [OF j m]
    by (rule refl)
qed

lemma Square_last_eq:
  fixes x :: "'a::len word Num3072"
  shows "Square_last x s = Multiply_last x x s"
proof -
  obtain c0 c1 tmp where s: "s = (c0, c1, tmp)" by (cases s)
  have "fold (\<lambda>i c. muldbladd3 c (limbs x ! i) (limbs x ! (LIMBS TYPE('a) - 1 - i))) [0..<LIMBS TYPE('a) div 2] (c0, c1, 0)
      = fold (\<lambda>i c. muladd3 c (limbs x ! i) (limbs x ! (LIMBS TYPE('a) - 1 - i))) [0..<LIMBS TYPE('a)] (c0, c1, 0)"
    using sym_fold [of False "LIMBS TYPE('a)" "\<lambda>i. limbs x ! i" "(c0, c1, 0)"] LIMBS_even [where 'a = 'a]
    by (simp only: simp_thms if_False)
  then show ?thesis
    unfolding Square_last_def Multiply_last_def s prod.case Let_def by (simp only:)
qed

lemma Square_carry_eq: "Square_carry x = Multiply_carry x x"
proof -
  have "fold (Square_step x) [0..<LIMBS TYPE('a) - 1] (0, 0, tmp_init)
      = fold (Multiply_step x x) [0..<LIMBS TYPE('a) - 1] (0, 0, tmp_init)"
    by (rule fold_cong) (auto intro!: ext Square_step_eq)
  then show ?thesis
    by (simp add: Square_carry_def Multiply_carry_def Square_last_eq)
qed

lemma Square_eq_Multiply: "Square x = Multiply x x"
  by (simp add: Square_def Multiply_def Square_carry_eq)

text \<open>
  C4. For every \<open>Num3072\<close> \<open>x\<close> (canonical or not, in either build), \<open>Square\<close> leaves
  exactly the limbs that \<open>Multiply\<close> leaves when both operands are \<open>x\<close>: the doubled
  cross terms and the parity-selected middle term add up to the full diagonal of the
  schoolbook product, in every 3-limb accumulator.
\<close>

theorem Square_same_as_Multiply_by_itself:
  fixes x :: "'a::len limb_t Num3072"
  shows "Square x = Multiply x x"
  by (simp add: Square_def Multiply_def Square_carry_eq)

section \<open>The schoolbook product by columns\<close>

lemma triangle_low:
  fixes g :: "nat \<Rightarrow> nat \<Rightarrow> nat"
  shows "(\<Sum>i<N. \<Sum>k<N - i. g i k) = (\<Sum>j<N. \<Sum>i\<le>j. g i (j - i))"
proof -
  have "(\<Sum>i<N. \<Sum>k<N - i. g i k) = (\<Sum>(i, k)\<in>(SIGMA i:{..<N}. {..<N - i}). g i k)"
    by (rule sum.Sigma) simp_all
  also have "(SIGMA i:{..<N}. {..<N - i}) = {(i, k). i + k < N}"
    by auto
  also have "(\<Sum>(i, k)\<in>{(i, k). i + k < N}. g i k) = (\<Sum>j<N. \<Sum>i\<le>j. g i (j - i))"
    by (rule sum.triangle_reindex)
  finally show ?thesis .
qed

lemma triangle_high:
  fixes g :: "nat \<Rightarrow> nat \<Rightarrow> nat"
  shows "(\<Sum>i<N. \<Sum>k = N - i..<N. g i k) = (\<Sum>j<N. \<Sum>i = Suc j..<N. g i (N + j - i))"
proof (cases N)
  case 0
  then show ?thesis by simp
next
  case (Suc n)
  have inner: "(\<Sum>k = N - i..<N. g i k) = (\<Sum>t<i. g i (N + t - i))" if "i < N" for i
  proof -
    have "(\<Sum>k = N - i..<N. g i k) = (\<Sum>k = 0 + (N - i)..<i + (N - i). g i k)"
      using that by simp
    also have "\<dots> = (\<Sum>t = 0..<i. g i (t + (N - i)))"
      by (rule sum.shift_bounds_nat_ivl)
    also have "\<dots> = (\<Sum>t<i. g i (N + t - i))"
      unfolding atLeast0LessThan
    proof (rule sum.cong)
      fix t assume "t \<in> {..<i}"
      have "t + (N - i) = N + t - i" using that by simp
      then show "g i (t + (N - i)) = g i (N + t - i)" by simp
    qed simp
    finally show ?thesis .
  qed
  have "(\<Sum>i<N. \<Sum>k = N - i..<N. g i k) = (\<Sum>i<N. \<Sum>t<i. g i (N + t - i))"
    by (rule sum.cong) (simp_all add: inner)
  also have "\<dots> = (\<Sum>i\<le>n. \<Sum>t<i. g i (N + t - i))"
    by (simp only: Suc lessThan_Suc_atMost)
  also have "\<dots> = (\<Sum>t<n. \<Sum>i = Suc t..n. g i (N + t - i))"
    by (rule sum.nested_swap')
  also have "\<dots> = (\<Sum>t<n. \<Sum>i = Suc t..<N. g i (N + t - i))"
    by (simp only: Suc atLeastLessThanSuc_atLeastAtMost)
  also have "\<dots> = (\<Sum>t<N. \<Sum>i = Suc t..<N. g i (N + t - i))"
    by (simp add: Suc)
  finally show ?thesis .
qed

lemma square_split:
  fixes g :: "nat \<Rightarrow> nat \<Rightarrow> nat"
  shows "(\<Sum>i<N. \<Sum>k<N. g i k)
      = (\<Sum>j<N. \<Sum>i\<le>j. g i (j - i)) + (\<Sum>j<N. \<Sum>i = Suc j..<N. g i (N + j - i))"
proof -
  have "(\<Sum>k<N. g i k) = (\<Sum>k<N - i. g i k) + (\<Sum>k = N - i..<N. g i k)" for i
    unfolding lessThan_atLeast0 by (rule sum.atLeastLessThan_concat [symmetric]) simp_all
  then have "(\<Sum>i<N. \<Sum>k<N. g i k) = (\<Sum>i<N. \<Sum>k<N - i. g i k) + (\<Sum>i<N. \<Sum>k = N - i..<N. g i k)"
    by (simp add: sum.distrib)
  then show ?thesis by (simp only: triangle_low triangle_high)
qed

lemma limbs_value_sum:
  "limbs_value (xs :: 'a::len word list) = (\<Sum>i<length xs. unat (xs ! i) * (2 ^ LENGTH('a)) ^ i)"
proof (induction xs)
  case Nil
  show ?case by simp
next
  case (Cons x xs)
  show ?case
    by (simp add: Cons.IH sum.lessThan_Suc_shift sum_distrib_left algebra_simps del: sum.lessThan_Suc)
qed

lemma product_split:
  fixes x a :: "'a::len word list"
  assumes lx: "length x = LIMBS TYPE('a)" and la: "length a = LIMBS TYPE('a)"
  shows "limbs_value x * limbs_value a
      = low_part x a + (2 ^ LENGTH('a)) ^ LIMBS TYPE('a) * high_part x a"
proof -
  define w :: nat where "w = 2 ^ LENGTH('a)"
  define N where "N = LIMBS TYPE('a)"
  define g where "g i k = unat (x ! i) * unat (a ! k) * w ^ (i + k)" for i k
  have "limbs_value x * limbs_value a = (\<Sum>i<N. unat (x ! i) * w ^ i) * (\<Sum>k<N. unat (a ! k) * w ^ k)"
    by (simp only: limbs_value_sum lx la w_def N_def)
  also have "\<dots> = (\<Sum>i<N. \<Sum>k<N. (unat (x ! i) * w ^ i) * (unat (a ! k) * w ^ k))"
    by (rule sum_product)
  also have "\<dots> = (\<Sum>i<N. \<Sum>k<N. g i k)"
    by (simp add: g_def power_add algebra_simps)
  also have "\<dots> = (\<Sum>j<N. \<Sum>i\<le>j. g i (j - i)) + (\<Sum>j<N. \<Sum>i = Suc j..<N. g i (N + j - i))"
    by (rule square_split)
  also have "(\<Sum>j<N. \<Sum>i\<le>j. g i (j - i)) = low_part x a"
    unfolding low_part_def low_sum_def N_def [symmetric] w_def [symmetric] sum_distrib_left
  proof (intro sum.cong refl)
    fix j i :: nat assume "i \<in> {..j}"
    then have "i + (j - i) = j" by simp
    then show "g i (j - i) = w ^ j * (unat (x ! i) * unat (a ! (j - i)))"
      by (simp add: g_def)
  qed
  also have "(\<Sum>j<N. \<Sum>i = Suc j..<N. g i (N + j - i)) = w ^ N * high_part x a"
    unfolding high_part_def high_sum_def N_def [symmetric] w_def [symmetric] sum_distrib_left
  proof (intro sum.cong refl)
    fix j i :: nat assume "i \<in> {Suc j..<N}"
    then have "i + (N + j - i) = N + j" by simp
    then show "g i (N + j - i) = w ^ N * (w ^ j * (unat (x ! i) * unat (a ! (N + j - i))))"
      by (simp add: g_def power_add)
  qed
  finally show ?thesis by (simp only: w_def N_def)
qed

lemma limb_prod_le: "unat (a::'a::len word) * unat (b::'a word) \<le> (2 ^ LENGTH('a) - 1) * 2 ^ LENGTH('a)"
proof -
  have "unat a \<le> 2 ^ LENGTH('a) - 1" "unat b \<le> 2 ^ LENGTH('a)"
    using unat_lt_radix [of a] unat_lt_radix [of b] by linarith+
  then show ?thesis by (rule mult_le_mono)
qed

lemma low_sum_le:
  fixes x a :: "'a::len word list"
  assumes "j < LIMBS TYPE('a)"
  shows "low_sum x a j \<le> LIMBS TYPE('a) * ((2 ^ LENGTH('a) - 1) * 2 ^ LENGTH('a))"
proof -
  have "low_sum x a j \<le> of_nat (card {..j}) * ((2 ^ LENGTH('a) - 1) * 2 ^ LENGTH('a))"
    unfolding low_sum_def by (rule sum_bounded_above) (rule limb_prod_le)
  also have "\<dots> \<le> LIMBS TYPE('a) * ((2 ^ LENGTH('a) - 1) * 2 ^ LENGTH('a))"
    using assms by (intro mult_le_mono1) simp
  finally show ?thesis .
qed

lemma high_sum_le:
  fixes x a :: "'a::len word list"
  shows "high_sum x a j \<le> LIMBS TYPE('a) * ((2 ^ LENGTH('a) - 1) * 2 ^ LENGTH('a))"
proof -
  have "high_sum x a j \<le> of_nat (card {Suc j..<LIMBS TYPE('a)}) * ((2 ^ LENGTH('a) - 1) * 2 ^ LENGTH('a))"
    unfolding high_sum_def by (rule sum_bounded_above) (rule limb_prod_le)
  also have "\<dots> \<le> LIMBS TYPE('a) * ((2 ^ LENGTH('a) - 1) * 2 ^ LENGTH('a))"
    by (intro mult_le_mono1) simp
  finally show ?thesis .
qed

lemma high_sum_last: "high_sum x (a :: 'a::len word list) (LIMBS TYPE('a) - 1) = 0"
  by (simp add: high_sum_def)

lemma build_step_bound: "build_ok TYPE('a::len) \<Longrightarrow> 1103718 * LIMBS TYPE('a) \<le> 2 ^ LENGTH('a)"
  by (auto simp: build_ok_def LIMBS_def)

lemma build_carry_bound:
  "build_ok TYPE('a::len) \<Longrightarrow>
     (LIMBS TYPE('a) * 2 ^ LENGTH('a) + 1103717) * 1103717 + 2 ^ LENGTH('a) \<le> 2 ^ LENGTH('a) * 2 ^ LENGTH('a)"
  by (auto simp: build_ok_def LIMBS_def)

lemma column_lt:
  fixes w N h l c :: nat
  assumes h: "h \<le> N * ((w - 1) * w)" and l: "l \<le> N * ((w - 1) * w)"
    and c: "c < w * w" and N: "1103718 * N \<le> w"
  shows "c + 1103717 * h + l < w * w * w"
proof -
  have "1103717 * h + l \<le> 1103717 * (N * ((w - 1) * w)) + N * ((w - 1) * w)"
    using h l by (intro add_mono mult_le_mono2)
  also have "\<dots> = (1103718 * N) * ((w - 1) * w)" by (simp add: algebra_simps)
  also have "\<dots> \<le> w * ((w - 1) * w)" using N by (rule mult_le_mono1)
  finally have "1103717 * h + l \<le> w * ((w - 1) * w)" .
  moreover have "w * ((w - 1) * w) + w * w = w * w * w"
  proof (cases w)
    case 0 then show ?thesis by simp
  next
    case (Suc k) then show ?thesis by (simp add: algebra_simps)
  qed
  ultimately show ?thesis using c by linarith
qed

lemma val3_split:
  fixes e0 e1 e2 :: "'a::len word"
  assumes "val3 (e0, e1, e2) = t"
  shows "unat e0 + 2 ^ LENGTH('a) * val2 (e1, e2) = t"
  using assms by (simp add: val3_def val2_def algebra_simps)

section \<open>The first loop of \<open>Multiply\<close>\<close>

lemma sum_list_upt_ivl: "(\<Sum>i\<leftarrow>[m..<n]. (F i :: nat)) = (\<Sum>i = m..<n. F i)"
  by (simp add: interv_sum_list_conv_sum_set_nat)

lemma sum_list_upt_atMost: "(\<Sum>i\<leftarrow>[0..<j + 1]. (F i :: nat)) = (\<Sum>i\<le>j. F i)"
  by (simp add: interv_sum_list_conv_sum_set_nat atLeast0LessThan lessThan_Suc_atMost del: upt_Suc)

lemma mulnadd3_val':
  fixes n :: "'a::len word"
  shows "val3 (mulnadd3 (c0, c1, c2) d n)
      = (val2 (c0, c1) + val3 d * unat n) mod (2 ^ LENGTH('a) * 2 ^ LENGTH('a) * 2 ^ LENGTH('a))"
  by (cases d) (simp only: mulnadd3_val val2_def prod.case)

lemma Multiply_step_val:
  fixes x a tmp :: "'a::len word Num3072"
  assumes b: "build_ok TYPE('a)" and j: "j + 1 < LIMBS TYPE('a)"
  shows "\<exists>c0' c1' n. Multiply_step x a j (c0, c1, tmp) = (c0', c1', tmp\<lparr>limbs := (limbs tmp)[j := n]\<rparr>)
     \<and> unat n + 2 ^ LENGTH('a) * val2 (c0', c1')
         = val2 (c0, c1) + (1103717 * high_sum (limbs x) (limbs a) j + low_sum (limbs x) (limbs a) j)"
proof -
  define w :: nat where "w = 2 ^ LENGTH('a)"
  define N where "N = LIMBS TYPE('a)"
  define h where "h = high_sum (limbs x) (limbs a) j"
  define l where "l = low_sum (limbs x) (limbs a) j"
  obtain d0 d1 where m: "mul (limbs x ! (1 + j)) (limbs a ! (N + j - (1 + j))) = (d0, d1)"
    by (cases "mul (limbs x ! (1 + j)) (limbs a ! (N + j - (1 + j)))")
  define d where "d = fold (\<lambda>i d. muladd3 d (limbs x ! i) (limbs a ! (N + j - i))) [2 + j..<N] (d0, d1, 0)"
  define c where "c = mulnadd3 (c0, c1, 0) d MAX_PRIME_DIFF"
  define c' where "c' = fold (\<lambda>i c. muladd3 c (limbs x ! i) (limbs a ! (j - i))) [0..<j + 1] c"
  have hle: "h \<le> N * ((w - 1) * w)" unfolding h_def N_def w_def by (rule high_sum_le)
  have lle: "l \<le> N * ((w - 1) * w)" unfolding l_def N_def w_def using j by (intro low_sum_le) simp
  have NN: "1103718 * N \<le> w" unfolding N_def w_def by (rule build_step_bound [OF b])
  have cv: "val2 (c0, c1) < w * w" unfolding w_def by (rule val2_lt)
  have tot: "val2 (c0, c1) + 1103717 * h + l < w * w * w"
    by (rule column_lt [OF hle lle cv NN])
  have hlt: "h < w * w * w" using tot by linarith
  have "d = fold (\<lambda>i d. muladd3 d (limbs x ! i) (limbs a ! (N + j - i))) [1 + j..<N] (0, 0, 0)"
    unfolding d_def using j m by (intro high_mul) (simp_all add: N_def)
  then have "val3 d = (val3 (0, 0, 0 :: 'a word) + h) mod (w * w * w)"
    by (simp only: fold_muladd3_val sum_list_upt_ivl h_def high_sum_def N_def w_def plus_1_eq_Suc)
  then have vd: "val3 d = h" using hlt by (simp add: val3_def)
  have "val3 c = (val2 (c0, c1) + val3 d * unat (MAX_PRIME_DIFF :: 'a word)) mod (w * w * w)"
    unfolding c_def w_def by (rule mulnadd3_val')
  then have vc: "val3 c = (val2 (c0, c1) + 1103717 * h) mod (w * w * w)"
    by (simp add: vd unat_MAX_PRIME_DIFF [OF b] mult.commute)
  have "val3 c' = (val3 c + l) mod (w * w * w)"
    unfolding c'_def by (simp only: fold_muladd3_val sum_list_upt_atMost l_def low_sum_def w_def)
  then have "val3 c' = (val2 (c0, c1) + 1103717 * h + l) mod (w * w * w)"
    by (simp only: vc mod_add_left_eq)
  then have vc': "val3 c' = val2 (c0, c1) + 1103717 * h + l" using tot by simp
  obtain e0 e1 e2 where e: "c' = (e0, e1, e2)" by (cases c')
  have st: "Multiply_step x a j (c0, c1, tmp) = (e1, e2, tmp\<lparr>limbs := (limbs tmp)[j := e0]\<rparr>)"
    unfolding Multiply_step_def prod.case Let_def N_def [symmetric] m
      d_def [symmetric] c_def [symmetric] c'_def [symmetric] e extract3_def
    by (simp del: upt_Suc)
  have "unat e0 + 2 ^ LENGTH('a) * val2 (e1, e2) = val2 (c0, c1) + 1103717 * h + l"
    using vc' unfolding e by (rule val3_split)
  then show ?thesis
    using st unfolding h_def l_def add.assoc by blast
qed

lemma LIMBS_pos: "0 < LIMBS TYPE('a::len)"
  by (simp add: LIMBS_def)

lemma Multiply_last_val:
  fixes x a tmp :: "'a::len word Num3072"
  assumes b: "build_ok TYPE('a)"
  shows "\<exists>c0' c1' n. Multiply_last x a (c0, c1, tmp)
        = (c0', c1', tmp\<lparr>limbs := (limbs tmp)[LIMBS TYPE('a) - 1 := n]\<rparr>)
     \<and> unat n + 2 ^ LENGTH('a) * val2 (c0', c1')
         = val2 (c0, c1) + column (limbs x) (limbs a) (LIMBS TYPE('a) - 1)"
proof -
  define w :: nat where "w = 2 ^ LENGTH('a)"
  define N where "N = LIMBS TYPE('a)"
  define l where "l = low_sum (limbs x) (limbs a) (N - 1)"
  define c' where "c' = fold (\<lambda>i c. muladd3 c (limbs x ! i) (limbs a ! (N - 1 - i))) [0..<N] (c0, c1, 0)"
  have N: "N - 1 + 1 = N" "N - 1 < N" using LIMBS_pos [where 'a = 'a] by (simp_all add: N_def)
  have lle: "l \<le> N * ((w - 1) * w)" unfolding l_def N_def w_def using N(2) by (intro low_sum_le) (simp add: N_def)
  have NN: "1103718 * N \<le> w" unfolding N_def w_def by (rule build_step_bound [OF b])
  have cv: "val2 (c0, c1) < w * w" unfolding w_def by (rule val2_lt)
  have "val2 (c0, c1) + 1103717 * 0 + l < w * w * w"
    by (rule column_lt [OF _ lle cv NN]) simp
  then have tot: "val2 (c0, c1) + l < w * w * w" by simp
  have "val3 c' = (val3 (c0, c1, 0) + (\<Sum>i\<leftarrow>[0..<N - 1 + 1]. unat (limbs x ! i) * unat (limbs a ! (N - 1 - i)))) mod (w * w * w)"
    unfolding c'_def by (simp only: fold_muladd3_val w_def N)
  then have "val3 c' = (val3 (c0, c1, 0) + l) mod (w * w * w)"
    by (simp only: sum_list_upt_atMost l_def low_sum_def)
  moreover have "val3 (c0, c1, 0) = val2 (c0, c1)" by (simp add: val3_def val2_def)
  ultimately have vc': "val3 c' = val2 (c0, c1) + l" using tot by simp
  obtain e0 e1 e2 where e: "c' = (e0, e1, e2)" by (cases c')
  have st: "Multiply_last x a (c0, c1, tmp) = (e1, e2, tmp\<lparr>limbs := (limbs tmp)[N - 1 := e0]\<rparr>)"
    unfolding Multiply_last_def prod.case Let_def N_def [symmetric]
      c'_def [symmetric] e extract3_def
    by simp
  have "unat e0 + 2 ^ LENGTH('a) * val2 (e1, e2) = val2 (c0, c1) + l"
    using vc' unfolding e by (rule val3_split)
  moreover have "column (limbs x) (limbs a) (N - 1) = l"
    unfolding column_def l_def N_def high_sum_last by simp
  ultimately show ?thesis
    using st unfolding N_def by force
qed

lemma Multiply_loop:
  fixes x a tmp0 :: "'a::len word Num3072"
  assumes b: "build_ok TYPE('a)" and k: "k \<le> LIMBS TYPE('a) - 1"
    and len: "length (limbs tmp0) = LIMBS TYPE('a)"
  shows "\<exists>c0 c1 tmp. fold (Multiply_step x a) [0..<k] (0, 0, tmp0) = (c0, c1, tmp)
     \<and> length (limbs tmp) = LIMBS TYPE('a)
     \<and> limbs_value (take k (limbs tmp)) + (2 ^ LENGTH('a)) ^ k * val2 (c0, c1)
         = (\<Sum>j<k. (2 ^ LENGTH('a)) ^ j * column (limbs x) (limbs a) j)"
  using k
proof (induction k)
  case 0
  show ?case using len by (simp add: val2_def)
next
  case (Suc k)
  then obtain c0 c1 tmp where f: "fold (Multiply_step x a) [0..<k] (0, 0, tmp0) = (c0, c1, tmp)"
    and l: "length (limbs tmp) = LIMBS TYPE('a)"
    and v: "limbs_value (take k (limbs tmp)) + (2 ^ LENGTH('a)) ^ k * val2 (c0, c1)
         = (\<Sum>j<k. (2 ^ LENGTH('a)) ^ j * column (limbs x) (limbs a) j)"
    by auto
  have kk: "k + 1 < LIMBS TYPE('a)" using Suc.prems by simp
  obtain c0' c1' n where st: "Multiply_step x a k (c0, c1, tmp) = (c0', c1', tmp\<lparr>limbs := (limbs tmp)[k := n]\<rparr>)"
    and e: "unat n + 2 ^ LENGTH('a) * val2 (c0', c1') = val2 (c0, c1) + column (limbs x) (limbs a) k"
    using Multiply_step_val [OF b kk, of x a c0 c1 tmp] unfolding column_def by blast
  have "limbs_value (take (Suc k) ((limbs tmp)[k := n])) + (2 ^ LENGTH('a)) ^ Suc k * val2 (c0', c1')
      = limbs_value (take k (limbs tmp)) + (2 ^ LENGTH('a)) ^ k * (unat n + 2 ^ LENGTH('a) * val2 (c0', c1'))"
    using kk l by (simp add: take_Suc_update limbs_value_append algebra_simps)
  also have "\<dots> = limbs_value (take k (limbs tmp)) + (2 ^ LENGTH('a)) ^ k * val2 (c0, c1)
      + (2 ^ LENGTH('a)) ^ k * column (limbs x) (limbs a) k"
    by (simp only: e distrib_left add.assoc)
  also have "\<dots> = (\<Sum>j<Suc k. (2 ^ LENGTH('a)) ^ j * column (limbs x) (limbs a) j)"
    by (simp only: v sum.lessThan_Suc)
  finally show ?case
    using l by (simp add: f st del: power_Suc sum.lessThan_Suc)
qed

lemma first_pass:
  fixes x a :: "'a::len word Num3072"
  assumes b: "build_ok TYPE('a)"
  shows "\<exists>c0 c1 tmp. Multiply_last x a (fold (Multiply_step x a) [0..<LIMBS TYPE('a) - 1] (0, 0, tmp_init))
        = (c0, c1, tmp)
     \<and> length (limbs tmp) = LIMBS TYPE('a)
     \<and> limbs_value (limbs tmp) + (2 ^ LENGTH('a)) ^ LIMBS TYPE('a) * val2 (c0, c1)
         = (\<Sum>j<LIMBS TYPE('a). (2 ^ LENGTH('a)) ^ j * column (limbs x) (limbs a) j)"
proof -
  define w :: nat where "w = 2 ^ LENGTH('a)"
  define N where "N = LIMBS TYPE('a)"
  have N: "Suc (N - 1) = N" using LIMBS_pos [where 'a = 'a] by (simp add: N_def)
  have "length (limbs (tmp_init :: 'a word Num3072)) = LIMBS TYPE('a)" by (simp add: tmp_init_def)
  from Multiply_loop [OF b le_refl this, of x a]
  obtain c0 c1 tmp where f: "fold (Multiply_step x a) [0..<N - 1] (0, 0, tmp_init) = (c0, c1, tmp)"
    and l: "length (limbs tmp) = N"
    and v: "limbs_value (take (N - 1) (limbs tmp)) + w ^ (N - 1) * val2 (c0, c1)
         = (\<Sum>j<N - 1. w ^ j * column (limbs x) (limbs a) j)"
    unfolding N_def w_def by blast
  obtain c0' c1' n where st: "Multiply_last x a (c0, c1, tmp) = (c0', c1', tmp\<lparr>limbs := (limbs tmp)[N - 1 := n]\<rparr>)"
    and e: "unat n + w * val2 (c0', c1') = val2 (c0, c1) + column (limbs x) (limbs a) (N - 1)"
    using Multiply_last_val [OF b, of x a c0 c1 tmp] unfolding N_def w_def by blast
  have tk: "take N ((limbs tmp)[N - 1 := n]) = take (N - 1) (limbs tmp) @ [n]"
    using take_Suc_update [of "N - 1" "limbs tmp" n] l N by simp
  have "take N ((limbs tmp)[N - 1 := n]) = (limbs tmp)[N - 1 := n]"
    using l by simp
  then have up: "(limbs tmp)[N - 1 := n] = take (N - 1) (limbs tmp) @ [n]"
    using tk by simp
  have "limbs_value (take (N - 1) (limbs tmp) @ [n])
      = limbs_value (take (N - 1) (limbs tmp)) + w ^ length (take (N - 1) (limbs tmp)) * limbs_value [n]"
    by (simp only: limbs_value_append w_def)
  moreover have "length (take (N - 1) (limbs tmp)) = N - 1" using l by simp
  moreover have "limbs_value [n] = unat n" by simp
  ultimately have "limbs_value ((limbs tmp)[N - 1 := n])
      = limbs_value (take (N - 1) (limbs tmp)) + w ^ (N - 1) * unat n"
    by (simp only: up)
  then have "limbs_value ((limbs tmp)[N - 1 := n]) + w ^ Suc (N - 1) * val2 (c0', c1')
      = limbs_value (take (N - 1) (limbs tmp)) + w ^ (N - 1) * (unat n + w * val2 (c0', c1'))"
    by (simp add: algebra_simps)
  also have "\<dots> = limbs_value (take (N - 1) (limbs tmp)) + w ^ (N - 1) * val2 (c0, c1)
      + w ^ (N - 1) * column (limbs x) (limbs a) (N - 1)"
    by (simp only: e distrib_left add.assoc)
  also have "\<dots> = (\<Sum>j<Suc (N - 1). w ^ j * column (limbs x) (limbs a) j)"
    by (simp only: v sum.lessThan_Suc)
  finally have "limbs_value ((limbs tmp)[N - 1 := n]) + w ^ N * val2 (c0', c1')
      = (\<Sum>j<N. w ^ j * column (limbs x) (limbs a) j)"
    by (simp only: N)
  then show ?thesis
    using l unfolding N_def [symmetric] w_def [symmetric] f st by simp
qed

section \<open>The second reduction\<close>

lemma radix_ge2: "(2::nat) \<le> 2 ^ LENGTH('a::len)"
proof -
  have "(2::nat) ^ 1 \<le> 2 ^ LENGTH('a)"
    by (rule power_increasing) (simp_all add: Suc_leI)
  then show ?thesis by simp
qed

lemma radix_twice_le_sq: "(2::nat) ^ LENGTH('a::len) + 2 ^ LENGTH('a) \<le> 2 ^ LENGTH('a) * 2 ^ LENGTH('a)"
proof -
  have "2 * (2::nat) ^ LENGTH('a) \<le> 2 ^ LENGTH('a) * 2 ^ LENGTH('a)"
    using radix_ge2 [where 'a = 'a] by (rule mult_le_mono1)
  then show ?thesis by (simp only: mult_2)
qed

lemma reduce2_step_val:
  fixes tmp r :: "'a::len word Num3072"
  assumes inv: "val2 (c0, c1) + 2 ^ LENGTH('a) \<le> 2 ^ LENGTH('a) * 2 ^ LENGTH('a)"
  shows "\<exists>c0' n. reduce2_step tmp k (c0, c1, r) = (c0', 0, r\<lparr>limbs := (limbs r)[k := n]\<rparr>)
     \<and> unat n + 2 ^ LENGTH('a) * unat c0' = val2 (c0, c1) + unat (limbs tmp ! k)"
proof -
  obtain n c' where a: "add2 (c0, c1) (limbs tmp ! k) = (n, c')"
    by (cases "add2 (c0, c1) (limbs tmp ! k)")
  have "val2 (c0, c1) + unat (limbs tmp ! k) < 2 ^ LENGTH('a) * 2 ^ LENGTH('a)"
    using inv unat_lt_radix [of "limbs tmp ! k"] by linarith
  moreover have "val2 (add2 (c0, c1) (limbs tmp ! k))
      = (val2 (c0, c1) + unat (limbs tmp ! k)) mod (2 ^ LENGTH('a) * 2 ^ LENGTH('a))"
    by (rule add2_val)
  ultimately have "val2 (n, c') = val2 (c0, c1) + unat (limbs tmp ! k)"
    by (simp add: a)
  then have "unat n + 2 ^ LENGTH('a) * unat c' = val2 (c0, c1) + unat (limbs tmp ! k)"
    by (simp add: val2_def)
  moreover have "reduce2_step tmp k (c0, c1, r) = (c', 0, r\<lparr>limbs := (limbs r)[k := n]\<rparr>)"
    by (simp add: reduce2_step_def Let_def a extract2_def)
  ultimately show ?thesis by blast
qed

lemma reduce2_loop:
  fixes tmp in_out :: "'a::len word Num3072"
  assumes k: "k \<le> length (limbs in_out)" and lt: "length (limbs tmp) = length (limbs in_out)"
    and inv: "val2 (e0, e1) + 2 ^ LENGTH('a) \<le> 2 ^ LENGTH('a) * 2 ^ LENGTH('a)"
  shows "\<exists>c0 c1 r. fold (reduce2_step tmp) [0..<k] (e0, e1, in_out) = (c0, c1, r)
     \<and> length (limbs r) = length (limbs in_out)
     \<and> (0 < k \<longrightarrow> c1 = 0)
     \<and> val2 (c0, c1) + 2 ^ LENGTH('a) \<le> 2 ^ LENGTH('a) * 2 ^ LENGTH('a)
     \<and> limbs_value (take k (limbs r)) + (2 ^ LENGTH('a)) ^ k * val2 (c0, c1)
         = limbs_value (take k (limbs tmp)) + val2 (e0, e1)"
  using k
proof (induction k)
  case 0
  show ?case using inv by simp
next
  case (Suc k)
  then obtain c0 c1 r where f: "fold (reduce2_step tmp) [0..<k] (e0, e1, in_out) = (c0, c1, r)"
    and l: "length (limbs r) = length (limbs in_out)"
    and i: "val2 (c0, c1) + 2 ^ LENGTH('a) \<le> 2 ^ LENGTH('a) * 2 ^ LENGTH('a)"
    and v: "limbs_value (take k (limbs r)) + (2 ^ LENGTH('a)) ^ k * val2 (c0, c1)
         = limbs_value (take k (limbs tmp)) + val2 (e0, e1)"
    by auto
  have kk: "k < length (limbs in_out)" using Suc.prems by simp
  obtain c0' n where st: "reduce2_step tmp k (c0, c1, r) = (c0', 0, r\<lparr>limbs := (limbs r)[k := n]\<rparr>)"
    and e: "unat n + 2 ^ LENGTH('a) * unat c0' = val2 (c0, c1) + unat (limbs tmp ! k)"
    using reduce2_step_val [OF i, of tmp k r] by blast
  have "val2 (c0', 0 :: 'a word) = unat c0'" by (simp add: val2_def)
  then have i': "val2 (c0', 0 :: 'a word) + 2 ^ LENGTH('a) \<le> 2 ^ LENGTH('a) * 2 ^ LENGTH('a)"
    using unat_lt_radix [of c0'] radix_twice_le_sq [where 'a = 'a] by linarith
  have "limbs_value (take (Suc k) ((limbs r)[k := n])) + (2 ^ LENGTH('a)) ^ Suc k * val2 (c0', 0 :: 'a word)
      = limbs_value (take k (limbs r)) + (2 ^ LENGTH('a)) ^ k * (unat n + 2 ^ LENGTH('a) * unat c0')"
    using kk l by (simp add: take_Suc_update limbs_value_append val2_def algebra_simps)
  also have "\<dots> = limbs_value (take k (limbs r)) + (2 ^ LENGTH('a)) ^ k * val2 (c0, c1)
      + (2 ^ LENGTH('a)) ^ k * unat (limbs tmp ! k)"
    by (simp only: e distrib_left add.assoc)
  also have "\<dots> = limbs_value (take (Suc k) (limbs tmp)) + val2 (e0, e1)"
    using kk lt v by (simp add: take_Suc_conv_app_nth limbs_value_append)
  finally have v': "limbs_value (take (Suc k) ((limbs r)[k := n])) + (2 ^ LENGTH('a)) ^ Suc k * val2 (c0', 0 :: 'a word)
      = limbs_value (take (Suc k) (limbs tmp)) + val2 (e0, e1)" .
  show ?case
    using v' i' l by (simp add: f st del: power_Suc)
qed

lemma second_reduction_val:
  fixes tmp in_out :: "'a::len word Num3072"
  assumes b: "build_ok TYPE('a)"
    and li: "length (limbs in_out) = LIMBS TYPE('a)" and lt: "length (limbs tmp) = LIMBS TYPE('a)"
    and cv: "val2 (c0, c1) * 1103717 + 2 ^ LENGTH('a) \<le> 2 ^ LENGTH('a) * 2 ^ LENGTH('a)"
  shows "\<exists>c0' r. second_reduction in_out (c0, c1, tmp) = (c0', 0, r)
     \<and> length (limbs r) = LIMBS TYPE('a)
     \<and> limbs_value (limbs r) + (2 ^ LENGTH('a)) ^ LIMBS TYPE('a) * unat c0'
         = limbs_value (limbs tmp) + val2 (c0, c1) * 1103717"
proof -
  obtain e0 e1 where m: "muln2 (c0, c1) (MAX_PRIME_DIFF :: 'a word) = (e0, e1)"
    by (cases "muln2 (c0, c1) (MAX_PRIME_DIFF :: 'a word)")
  have "val2 (muln2 (c0, c1) (MAX_PRIME_DIFF :: 'a word))
      = (val2 (c0, c1) * unat (MAX_PRIME_DIFF :: 'a word)) mod (2 ^ LENGTH('a) * 2 ^ LENGTH('a))"
    by (rule muln2_val)
  moreover have "val2 (c0, c1) * 1103717 < 2 ^ LENGTH('a) * 2 ^ LENGTH('a)"
  proof -
    have "(0::nat) < 2 ^ LENGTH('a)" by simp
    then show ?thesis using cv by linarith
  qed
  ultimately have ve: "val2 (e0, e1) = val2 (c0, c1) * 1103717"
    by (simp add: m unat_MAX_PRIME_DIFF [OF b])
  have inv: "val2 (e0, e1) + 2 ^ LENGTH('a) \<le> 2 ^ LENGTH('a) * 2 ^ LENGTH('a)"
    using cv by (simp only: ve)
  have pos: "0 < LIMBS TYPE('a)" by (simp add: LIMBS_def)
  from reduce2_loop [OF _ _ inv, of "LIMBS TYPE('a)" in_out tmp]
  obtain c0' c1' r where f: "fold (reduce2_step tmp) [0..<LIMBS TYPE('a)] (e0, e1, in_out) = (c0', c1', r)"
    and l: "length (limbs r) = LIMBS TYPE('a)" and z: "c1' = 0"
    and v: "limbs_value (take (LIMBS TYPE('a)) (limbs r)) + (2 ^ LENGTH('a)) ^ LIMBS TYPE('a) * val2 (c0', c1')
         = limbs_value (take (LIMBS TYPE('a)) (limbs tmp)) + val2 (e0, e1)"
    using li lt pos by auto
  have "limbs_value (limbs r) + (2 ^ LENGTH('a)) ^ LIMBS TYPE('a) * unat c0'
         = limbs_value (limbs tmp) + val2 (c0, c1) * 1103717"
  proof -
    have "val2 (c0', 0 :: 'a word) = unat c0'" by (simp add: val2_def)
    then show ?thesis using v l lt unfolding z by (simp add: ve)
  qed
  moreover have "second_reduction in_out (c0, c1, tmp) = (c0', 0, r)"
    by (simp add: second_reduction_def m f z)
  ultimately show ?thesis using l by blast
qed

section \<open>The carry after the first loop\<close>

lemma geometric_nat: "0 < (w::nat) \<Longrightarrow> (\<Sum>j<n. w ^ j * (w - 1)) + 1 = w ^ n"
proof (induction n)
  case 0
  show ?case by simp
next
  case (Suc n)
  have e: "w ^ n + w ^ n * (w - 1) = w ^ n * w"
    using Suc.prems by (cases w) (simp_all add: algebra_simps)
  have "(\<Sum>j<Suc n. w ^ j * (w - 1)) + 1 = ((\<Sum>j<n. w ^ j * (w - 1)) + 1) + w ^ n * (w - 1)"
    by simp
  also have "\<dots> = w ^ n + w ^ n * (w - 1)"
    by (simp only: Suc.IH [OF Suc.prems])
  also have "\<dots> = w ^ Suc n" by (simp only: e power_Suc2)
  finally show ?case .
qed

lemma low_part_lt:
  fixes x a :: "'a::len word list"
  shows "low_part x a < LIMBS TYPE('a) * 2 ^ LENGTH('a) * (2 ^ LENGTH('a)) ^ LIMBS TYPE('a)"
proof -
  define w :: nat where "w = 2 ^ LENGTH('a)"
  define N where "N = LIMBS TYPE('a)"
  have w: "0 < w" by (simp add: w_def)
  have N: "0 < N" by (simp add: N_def LIMBS_pos)
  have "low_part x a \<le> (\<Sum>j<N. w ^ j * (N * ((w - 1) * w)))"
    unfolding low_part_def N_def [symmetric] w_def [symmetric]
  proof (rule sum_mono)
    fix j assume "j \<in> {..<N}"
    then have "low_sum x a j \<le> N * ((w - 1) * w)"
      unfolding N_def w_def by (intro low_sum_le) simp
    then show "w ^ j * low_sum x a j \<le> w ^ j * (N * ((w - 1) * w))" by (rule mult_le_mono2)
  qed
  also have "\<dots> = N * w * (\<Sum>j<N. w ^ j * (w - 1))"
    by (simp add: sum_distrib_left algebra_simps)
  finally have "low_part x a + N * w \<le> N * w * ((\<Sum>j<N. w ^ j * (w - 1)) + 1)"
    by (simp add: algebra_simps)
  then have "low_part x a + N * w \<le> N * w * w ^ N"
    by (simp only: geometric_nat [OF w])
  moreover have "0 < N * w" using N w by simp
  ultimately show ?thesis unfolding N_def w_def by linarith
qed

lemma high_part_lt:
  fixes x a :: "'a::len word list"
  assumes lx: "length x = LIMBS TYPE('a)" and la: "length a = LIMBS TYPE('a)"
  shows "high_part x a < (2 ^ LENGTH('a)) ^ LIMBS TYPE('a)"
proof -
  define M :: nat where "M = (2 ^ LENGTH('a)) ^ LIMBS TYPE('a)"
  have M: "0 < M" by (simp add: M_def)
  have "limbs_value x < M" "limbs_value a < M"
    using limbs_value_lt [of x] limbs_value_lt [of a] by (simp_all add: lx la M_def)
  then have "limbs_value x * limbs_value a < M * M"
    by (intro mult_strict_mono) simp_all
  moreover have "limbs_value x * limbs_value a = low_part x a + M * high_part x a"
    unfolding M_def by (rule product_split [OF lx la])
  ultimately have "M * high_part x a < M * M" by linarith
  then show ?thesis unfolding M_def [symmetric] by simp
qed

lemma columns_sum:
  fixes x a :: "'a::len word list"
  shows "(\<Sum>j<LIMBS TYPE('a). (2 ^ LENGTH('a)) ^ j * column x a j) = low_part x a + 1103717 * high_part x a"
proof -
  have "(\<Sum>j<LIMBS TYPE('a). (2 ^ LENGTH('a)) ^ j * column x a j)
      = (\<Sum>j<LIMBS TYPE('a). (2 ^ LENGTH('a)) ^ j * low_sum x a j
            + 1103717 * ((2 ^ LENGTH('a)) ^ j * high_sum x a j))"
    by (rule sum.cong) (simp_all add: column_def algebra_simps)
  also have "\<dots> = low_part x a + (\<Sum>j<LIMBS TYPE('a). 1103717 * ((2 ^ LENGTH('a)) ^ j * high_sum x a j))"
    by (simp only: sum.distrib low_part_def)
  also have "\<dots> = low_part x a + 1103717 * high_part x a"
    by (simp only: sum_distrib_left high_part_def)
  finally show ?thesis .
qed

lemma carry_small:
  fixes tv cv M L H N w :: nat
  assumes t: "tv + M * cv = L + 1103717 * H" and L: "L < N * w * M" and H: "H < M"
    and bound: "(N * w + 1103717) * 1103717 + w \<le> w * w"
  shows "cv * 1103717 + w \<le> w * w"
proof -
  have "L + 1103717 * H < N * w * M + 1103717 * M" using L H by simp
  then have "M * cv < M * (N * w + 1103717)" using t by (simp add: algebra_simps)
  then have "cv < N * w + 1103717" by simp
  then have "cv * 1103717 \<le> (N * w + 1103717) * 1103717" by simp
  then show ?thesis using bound by linarith
qed

lemma Multiply_carry_spec:
  fixes x a :: "'a::len word Num3072"
  assumes b: "build_ok TYPE('a)"
    and lx: "length (limbs x) = LIMBS TYPE('a)" and la: "length (limbs a) = LIMBS TYPE('a)"
  shows "\<exists>c0 r tv cv. Multiply_carry x a = (c0, 0, r)
     \<and> length (limbs r) = LIMBS TYPE('a)
     \<and> tv < (2 ^ LENGTH('a)) ^ LIMBS TYPE('a)
     \<and> tv + (2 ^ LENGTH('a)) ^ LIMBS TYPE('a) * cv
          = low_part (limbs x) (limbs a) + 1103717 * high_part (limbs x) (limbs a)
     \<and> num_value r + (2 ^ LENGTH('a)) ^ LIMBS TYPE('a) * unat c0 = tv + cv * 1103717
     \<and> cv * 1103717 + 2 ^ LENGTH('a) \<le> 2 ^ LENGTH('a) * 2 ^ LENGTH('a)"
proof -
  obtain c0 c1 tmp where fp: "Multiply_last x a (fold (Multiply_step x a) [0..<LIMBS TYPE('a) - 1] (0, 0, tmp_init))
        = (c0, c1, tmp)"
    and lt: "length (limbs tmp) = LIMBS TYPE('a)"
    and v: "limbs_value (limbs tmp) + (2 ^ LENGTH('a)) ^ LIMBS TYPE('a) * val2 (c0, c1)
         = (\<Sum>j<LIMBS TYPE('a). (2 ^ LENGTH('a)) ^ j * column (limbs x) (limbs a) j)"
    using first_pass [OF b, of x a] by blast
  have v': "limbs_value (limbs tmp) + (2 ^ LENGTH('a)) ^ LIMBS TYPE('a) * val2 (c0, c1)
      = low_part (limbs x) (limbs a) + 1103717 * high_part (limbs x) (limbs a)"
    using v by (simp only: columns_sum)
  have cs: "val2 (c0, c1) * 1103717 + 2 ^ LENGTH('a) \<le> 2 ^ LENGTH('a) * 2 ^ LENGTH('a)"
    by (rule carry_small [OF v' low_part_lt high_part_lt [OF lx la] build_carry_bound [OF b]])
  obtain c0' r where sr: "second_reduction x (c0, c1, tmp) = (c0', 0, r)"
    and lr: "length (limbs r) = LIMBS TYPE('a)"
    and vr: "limbs_value (limbs r) + (2 ^ LENGTH('a)) ^ LIMBS TYPE('a) * unat c0'
         = limbs_value (limbs tmp) + val2 (c0, c1) * 1103717"
    using second_reduction_val [OF b lx lt cs] by blast
  have "Multiply_carry x a = (c0', 0, r)"
    unfolding Multiply_carry_def Let_def fp sr by (rule refl)
  moreover have "limbs_value (limbs tmp) < (2 ^ LENGTH('a)) ^ LIMBS TYPE('a)"
    using limbs_value_lt [of "limbs tmp"] by (simp add: lt)
  ultimately show ?thesis
    using lr v' vr cs unfolding num_value_def by blast
qed

section \<open>What \<open>Multiply\<close> returns\<close>

lemma reduce_cases:
  fixes M P tv cv T vr c0 R :: nat
  assumes PC: "P + 1103717 = M" and tv: "tv < M" and T: "tv + M * cv = T"
    and r: "vr + M * c0 = tv + cv * 1103717" and small: "cv * 1103717 + 1103717 \<le> M"
    and R: "R = (if c0 \<noteq> 0 then (vr + 1103717) mod M else vr)"
  shows "c0 \<le> 1 \<and> R mod P = T mod P \<and> (T < M \<longrightarrow> R = T) \<and> (M \<le> T \<longrightarrow> 1103717 \<le> R)
    \<and> (vr + M * c0) mod P = T mod P \<and> (c0 \<noteq> 0 \<longrightarrow> R < cv * 1103717 + 1103717)"
proof -
  have "M * cv = (P + 1103717) * cv" by (simp only: PC)
  then have Mcv: "M * cv = P * cv + cv * 1103717"
    by (simp add: algebra_simps)
  have c0: "c0 \<le> 1"
  proof (rule ccontr)
    assume "\<not> c0 \<le> 1"
    then have "2 \<le> c0" by simp
    then have "M * 2 \<le> M * c0" by (rule mult_le_mono2)
    then show False using r tv small by linarith
  qed
  have cv0: "cv = 0" if "T < M"
  proof (rule ccontr)
    assume "cv \<noteq> 0"
    then have "M \<le> M * cv" by simp
    then show False using T that by linarith
  qed
  have carry: "(vr + M * c0) mod P = T mod P"
  proof -
    have "T = (vr + M * c0) + P * cv" using T r Mcv by linarith
    then show ?thesis by simp
  qed
  show ?thesis
  proof (cases "c0 = 0")
    case True
    then have Rv: "R = tv + cv * 1103717" using R r by simp
    then have TR: "T = R + P * cv" using T Mcv by linarith
    have "R mod P = T mod P" by (simp add: TR)
    moreover have "T < M \<longrightarrow> R = T" using cv0 T Rv by auto
    moreover have "M \<le> T \<longrightarrow> 1103717 \<le> R"
    proof
      assume "M \<le> T"
      then have "cv \<noteq> 0" using T tv by (cases "cv = 0") auto
      then have "1 \<le> cv" by simp
      then have "1 * 1103717 \<le> cv * 1103717" by (rule mult_le_mono1)
      then show "1103717 \<le> R" using Rv by linarith
    qed
    ultimately show ?thesis using c0 carry True by blast
  next
    case False
    then have c1: "c0 = 1" using c0 by simp
    then have e: "vr + M = tv + cv * 1103717" using r by simp
    then have "vr + 1103717 < M" using tv small by linarith
    then have Rv: "R = vr + 1103717" using R False by simp
    have "T = R + P * (cv + 1)" using T Mcv e Rv PC by (simp add: algebra_simps)
    then have "T mod P = (R + P * (cv + 1)) mod P" by (simp only:)
    then have "R mod P = T mod P" by (simp only: mod_mult_self2)
    moreover have "T < M \<longrightarrow> R = T" using cv0 e tv by auto
    moreover have "M \<le> T \<longrightarrow> 1103717 \<le> R" using Rv by simp
    moreover have "R < cv * 1103717 + 1103717" using Rv e tv by linarith
    ultimately show ?thesis using c0 carry by blast
  qed
qed

lemma build_P: "build_ok TYPE('a::len) \<Longrightarrow> prime_P + 1103717 = (2 ^ LENGTH('a)) ^ LIMBS TYPE('a)"
proof -
  assume b: "build_ok TYPE('a)"
  have "prime_P + 1103717 = 2 ^ 3072" by (simp add: prime_P_def)
  then show ?thesis by (simp only: build_radix_pow [OF b])
qed

lemma build_sq_le:
  "build_ok TYPE('a::len) \<Longrightarrow> (2::nat) ^ LENGTH('a) * 2 ^ LENGTH('a) \<le> (2 ^ LENGTH('a)) ^ LIMBS TYPE('a)"
proof -
  assume b: "build_ok TYPE('a)"
  have "2 \<le> LIMBS TYPE('a)" by (simp add: LIMBS_def)
  then have "((2::nat) ^ LENGTH('a)) ^ 2 \<le> (2 ^ LENGTH('a)) ^ LIMBS TYPE('a)"
    by (intro power_increasing) simp_all
  then show ?thesis by (simp only: power2_eq_square)
qed

lemma build_sq_lt_P: "build_ok TYPE('a::len) \<Longrightarrow> 2 ^ LENGTH('a) * 2 ^ LENGTH('a) < prime_P"
  by (auto simp: build_ok_def prime_P_def)

lemma Multiply_facts:
  fixes x a :: "'a::len word Num3072"
  assumes b: "build_ok TYPE('a)"
    and lx: "length (limbs x) = LIMBS TYPE('a)" and la: "length (limbs a) = LIMBS TYPE('a)"
  shows "\<exists>c0 r. Multiply_carry x a = (c0, 0, r)
     \<and> length (limbs r) = LIMBS TYPE('a)
     \<and> length (limbs (Multiply x a)) = LIMBS TYPE('a)
     \<and> unat c0 \<le> 1
     \<and> (num_value r + (2 ^ LENGTH('a)) ^ LIMBS TYPE('a) * unat c0) mod prime_P
          = (low_part (limbs x) (limbs a) + 1103717 * high_part (limbs x) (limbs a)) mod prime_P
     \<and> num_value (Multiply x a) mod prime_P
          = (low_part (limbs x) (limbs a) + 1103717 * high_part (limbs x) (limbs a)) mod prime_P
     \<and> (low_part (limbs x) (limbs a) + 1103717 * high_part (limbs x) (limbs a) < (2 ^ LENGTH('a)) ^ LIMBS TYPE('a)
          \<longrightarrow> num_value (Multiply x a) = low_part (limbs x) (limbs a) + 1103717 * high_part (limbs x) (limbs a))
     \<and> ((2 ^ LENGTH('a)) ^ LIMBS TYPE('a) \<le> low_part (limbs x) (limbs a) + 1103717 * high_part (limbs x) (limbs a)
          \<longrightarrow> 1103717 \<le> num_value (Multiply x a))
     \<and> (c0 \<noteq> 0 \<longrightarrow> num_value (Multiply x a) < prime_P)"
proof -
  define M :: nat where "M = (2 ^ LENGTH('a)) ^ LIMBS TYPE('a)"
  define T where "T = low_part (limbs x) (limbs a) + 1103717 * high_part (limbs x) (limbs a)"
  obtain c0 r tv cv where mc: "Multiply_carry x a = (c0, 0, r)"
    and lr: "length (limbs r) = LIMBS TYPE('a)"
    and tv: "tv < M" and t: "tv + M * cv = T"
    and v: "num_value r + M * unat c0 = tv + cv * 1103717"
    and cs: "cv * 1103717 + 2 ^ LENGTH('a) \<le> 2 ^ LENGTH('a) * 2 ^ LENGTH('a)"
    using Multiply_carry_spec [OF b lx la] unfolding M_def T_def by blast
  have PC: "prime_P + 1103717 = M" unfolding M_def by (rule build_P [OF b])
  have Cw: "(1103717::nat) < 2 ^ LENGTH('a)"
    using unat_lt_radix [of "MAX_PRIME_DIFF :: 'a word"] by (simp only: unat_MAX_PRIME_DIFF [OF b])
  have small: "cv * 1103717 + 1103717 \<le> M"
    using cs Cw build_sq_le [OF b] unfolding M_def by linarith
  have fr: "num_value (FullReduce r) = (num_value r + 1103717) mod M"
    using FullReduce_value [OF lr b] by (simp only: M_def build_radix_pow [OF b])
  have z: "(c0 \<noteq> 0) = (unat c0 \<noteq> 0)" by (simp add: unat_eq_0)
  have R: "num_value (Multiply x a) = (if unat c0 \<noteq> 0 then (num_value r + 1103717) mod M else num_value r)"
    by (simp add: Multiply_def mc z fr)
  have len: "length (limbs (Multiply x a)) = LIMBS TYPE('a)"
    by (simp add: Multiply_def mc lr FullReduce_length)
  have red: "unat c0 \<le> 1 \<and> num_value (Multiply x a) mod prime_P = T mod prime_P
      \<and> (T < M \<longrightarrow> num_value (Multiply x a) = T) \<and> (M \<le> T \<longrightarrow> 1103717 \<le> num_value (Multiply x a))
      \<and> (num_value r + M * unat c0) mod prime_P = T mod prime_P
      \<and> (unat c0 \<noteq> 0 \<longrightarrow> num_value (Multiply x a) < cv * 1103717 + 1103717)"
    by (rule reduce_cases [OF PC tv t v small R])
  have "num_value (Multiply x a) < prime_P" if "c0 \<noteq> 0"
  proof -
    have "num_value (Multiply x a) < cv * 1103717 + 1103717" using red that z by blast
    then have "num_value (Multiply x a) < 2 ^ LENGTH('a) * 2 ^ LENGTH('a)" using cs Cw by linarith
    then show ?thesis using build_sq_lt_P [OF b] by linarith
  qed
  then show ?thesis
    using red mc lr len unfolding M_def [symmetric] T_def [symmetric] by blast
qed

lemma product_T:
  fixes x a :: "'a::len word Num3072"
  assumes b: "build_ok TYPE('a)"
    and lx: "length (limbs x) = LIMBS TYPE('a)" and la: "length (limbs a) = LIMBS TYPE('a)"
  shows "num_value x * num_value a
      = (low_part (limbs x) (limbs a) + 1103717 * high_part (limbs x) (limbs a))
        + prime_P * high_part (limbs x) (limbs a)"
proof -
  have "num_value x * num_value a
      = low_part (limbs x) (limbs a) + (prime_P + 1103717) * high_part (limbs x) (limbs a)"
    unfolding num_value_def build_P [OF b] by (rule product_split [OF lx la])
  then show ?thesis by (simp add: algebra_simps)
qed

lemma Multiply_length:
  fixes x a :: "'a::len word Num3072"
  assumes "build_ok TYPE('a)" "length (limbs x) = LIMBS TYPE('a)" "length (limbs a) = LIMBS TYPE('a)"
  shows "length (limbs (Multiply x a)) = LIMBS TYPE('a)"
  using Multiply_facts [OF assms] by blast

lemma Multiply_mod:
  fixes x a :: "'a::len word Num3072"
  assumes "build_ok TYPE('a)" "length (limbs x) = LIMBS TYPE('a)" "length (limbs a) = LIMBS TYPE('a)"
  shows "num_value (Multiply x a) mod prime_P = (num_value x * num_value a) mod prime_P"
proof -
  have "num_value (Multiply x a) mod prime_P
      = (low_part (limbs x) (limbs a) + 1103717 * high_part (limbs x) (limbs a)) mod prime_P"
    using Multiply_facts [OF assms] by blast
  also have "\<dots> = (num_value x * num_value a) mod prime_P"
    by (simp only: product_T [OF assms] mod_mult_self2)
  finally show ?thesis .
qed

lemma Multiply_exact:
  fixes x a :: "'a::len word Num3072"
  assumes b: "build_ok TYPE('a)" and lx: "length (limbs x) = LIMBS TYPE('a)"
    and la: "length (limbs a) = LIMBS TYPE('a)"
    and fits: "num_value x * num_value a < prime_P + 1103717"
  shows "num_value (Multiply x a) = num_value x * num_value a"
proof -
  define H where "H = high_part (limbs x) (limbs a)"
  define T where "T = low_part (limbs x) (limbs a) + 1103717 * H"
  have p: "num_value x * num_value a = T + prime_P * H"
    unfolding T_def H_def by (rule product_T [OF b lx la])
  have "H = 0"
  proof (rule ccontr)
    assume "H \<noteq> 0"
    then have "prime_P + 1103717 \<le> T + prime_P * H"
      unfolding T_def by (cases H) simp_all
    then show False using fits p by linarith
  qed
  then have "T = num_value x * num_value a" using p by simp
  moreover have "T < (2 ^ LENGTH('a)) ^ LIMBS TYPE('a) \<longrightarrow> num_value (Multiply x a) = T"
    using Multiply_facts [OF b lx la] unfolding T_def H_def by blast
  ultimately show ?thesis using fits by (simp only: build_P [OF b])
qed

lemma Multiply_below_C:
  fixes x a :: "'a::len word Num3072"
  assumes b: "build_ok TYPE('a)" and lx: "length (limbs x) = LIMBS TYPE('a)"
    and la: "length (limbs a) = LIMBS TYPE('a)"
    and small: "num_value (Multiply x a) < 1103717"
  shows "num_value (Multiply x a) = num_value x * num_value a"
proof -
  define H where "H = high_part (limbs x) (limbs a)"
  define T where "T = low_part (limbs x) (limbs a) + 1103717 * H"
  define M :: nat where "M = (2 ^ LENGTH('a)) ^ LIMBS TYPE('a)"
  have p: "num_value x * num_value a = T + prime_P * H"
    unfolding T_def H_def by (rule product_T [OF b lx la])
  have f: "(T < M \<longrightarrow> num_value (Multiply x a) = T) \<and> (M \<le> T \<longrightarrow> 1103717 \<le> num_value (Multiply x a))"
    using Multiply_facts [OF b lx la] unfolding T_def H_def M_def by blast
  then have "T < M" using small by (cases "T < M") auto
  then have RT: "num_value (Multiply x a) = T" using f by simp
  have "H = 0"
  proof (rule ccontr)
    assume "H \<noteq> 0"
    then have "1103717 \<le> T" unfolding T_def by (cases H) simp_all
    then show False using RT small by simp
  qed
  then show ?thesis using p RT by simp
qed

section \<open>Multiplication: the claims\<close>

lemma limbs_value_zeros: "limbs_value (replicate n (0 :: 'a::len word)) = 0"
  by (induction n) simp_all

lemma limbs_value_ones: "limbs_value (replicate n (- 1 :: 'a::len word)) = (2 ^ LENGTH('a)) ^ n - 1"
proof -
  have "limbs_value (replicate n (limb_max :: 'a word)) = (2 ^ LENGTH('a)) ^ length (replicate n (limb_max :: 'a word)) - 1"
    by (subst limbs_value_max_iff) simp
  then show ?thesis by (simp add: limb_max_def)
qed

lemma two_64_length: "length (limbs two_64) = LIMBS TYPE(64)"
  by (simp add: two_64_def LIMBS_def)

lemma two_64_value: "num_value two_64 = 2"
  by (simp add: two_64_def num_value_def limbs_value_zeros)

lemma half_64_length: "length (limbs half_64) = LIMBS TYPE(64)"
  by (simp add: half_64_def LIMBS_def)

lemma half_64_value: "2 * num_value half_64 = prime_P + 1"
  by (simp add: half_64_def num_value_def limbs_value_append limbs_value_ones prime_P_def)

lemma num_value_lt:
  fixes x :: "'a::len word Num3072"
  assumes "build_ok TYPE('a)" "length (limbs x) = LIMBS TYPE('a)"
  shows "num_value x < prime_P + 1103717"
  using limbs_value_lt [of "limbs x"] assms by (simp only: num_value_def build_P)

lemma two_P: "prime_P + 1103717 \<le> prime_P + prime_P"
  by (simp add: prime_P_def)

lemma residue_or_plus_P:
  fixes R m P :: nat
  assumes "R mod P = m" "R < P + P"
  shows "R = m \<or> R = m + P"
proof -
  have "P * (R div P) + R mod P = R" by (rule mult_div_mod_eq)
  then have "R = P * (R div P) + m" using assms(1) by simp
  moreover have "R div P < 2" using assms(2) by (simp add: less_mult_imp_div_less)
  ultimately show ?thesis by (cases "R div P") auto
qed

lemma P_plus_C: "prime_P + 1103717 = 2 ^ 3072"
  by (simp add: prime_P_def)

text \<open>
  C1, as amended. For every pair of \<open>Num3072\<close> operands of either build (values in
  \<open>[0, 2^3072)\<close>, canonical or not), \<open>Multiply\<close> replaces the value of \<open>in_out\<close> by a value
  \<open>r < 2^3072\<close> that is congruent to the product modulo \<open>P\<close>: \<open>r\<close> is the canonical
  \<open>(in_out \<cdot> a) mod P\<close> or that value plus \<open>P\<close>. The result is not always canonical; the
  overflow window is left to \<open>Finalize\<close>.
\<close>

theorem Multiply_congruent_mod_P:
  fixes in_out a :: "'a::len limb_t Num3072"
  assumes "build_ok TYPE('a)"
    and "length (limbs in_out) = LIMBS TYPE('a)" and "length (limbs a) = LIMBS TYPE('a)"
  shows "length (limbs (Multiply in_out a)) = LIMBS TYPE('a)
    \<and> num_value (Multiply in_out a) < 2 ^ 3072
    \<and> num_value (Multiply in_out a) mod prime_P = (num_value in_out * num_value a) mod prime_P
    \<and> (num_value (Multiply in_out a) = (num_value in_out * num_value a) mod prime_P
        \<or> num_value (Multiply in_out a) = (num_value in_out * num_value a) mod prime_P + prime_P)"
proof -
  have len: "length (limbs (Multiply in_out a)) = LIMBS TYPE('a)"
    by (rule Multiply_length [OF assms])
  have lt: "num_value (Multiply in_out a) < prime_P + 1103717"
    by (rule num_value_lt [OF assms(1) len])
  have md: "num_value (Multiply in_out a) mod prime_P = (num_value in_out * num_value a) mod prime_P"
    by (rule Multiply_mod [OF assms])
  have "num_value (Multiply in_out a) < prime_P + prime_P"
    using lt two_P by linarith
  then have "num_value (Multiply in_out a) = (num_value in_out * num_value a) mod prime_P
        \<or> num_value (Multiply in_out a) = (num_value in_out * num_value a) mod prime_P + prime_P"
    by (rule residue_or_plus_P [OF md])
  then show ?thesis
    using len lt md unfolding P_plus_C by blast
qed

theorem Multiply_congruent_mod_P_witness:
  "build_ok TYPE(64) \<and> length (limbs two_64) = LIMBS TYPE(64) \<and> length (limbs half_64) = LIMBS TYPE(64)
     \<and> num_value (Multiply two_64 half_64) mod prime_P = (num_value two_64 * num_value half_64) mod prime_P"
  using Multiply_congruent_mod_P [OF build_ok_64 two_64_length half_64_length]
    build_ok_64 two_64_length half_64_length by blast

text \<open>
  C1 as stated fails: 2 and \<open>(P + 1) / 2\<close> are canonical, and \<open>Multiply\<close> leaves their
  product \<open>P + 1\<close>, which is neither below \<open>P\<close> nor equal to the product modulo \<open>P\<close>.
\<close>

theorem Multiply_result_not_canonical:
  "length (limbs two_64) = LIMBS TYPE(64) \<and> length (limbs half_64) = LIMBS TYPE(64)
     \<and> num_value two_64 < prime_P \<and> num_value half_64 < prime_P
     \<and> num_value (Multiply two_64 half_64) = prime_P + 1
     \<and> num_value (Multiply two_64 half_64) \<noteq> (num_value two_64 * num_value half_64) mod prime_P
     \<and> \<not> num_value (Multiply two_64 half_64) < prime_P"
proof -
  have P: "(3::nat) < prime_P" by (simp add: prime_P_def)
  have h: "num_value half_64 < prime_P" using half_64_value P by linarith
  have t: "num_value two_64 < prime_P" using P by (simp add: two_64_value)
  have "num_value two_64 * num_value half_64 < prime_P + 1103717"
    using half_64_value by (simp add: two_64_value)
  then have "num_value (Multiply two_64 half_64) = num_value two_64 * num_value half_64"
    by (rule Multiply_exact [OF build_ok_64 two_64_length half_64_length])
  then have v: "num_value (Multiply two_64 half_64) = prime_P + 1"
    using half_64_value by (simp add: two_64_value)
  have "(num_value two_64 * num_value half_64) mod prime_P < prime_P"
    using P by (intro mod_less_divisor) simp
  then have ne: "num_value (Multiply two_64 half_64) \<noteq> (num_value two_64 * num_value half_64) mod prime_P"
    using v by linarith
  have nl: "\<not> num_value (Multiply two_64 half_64) < prime_P"
    using v by linarith
  show ?thesis
    using v h t two_64_length half_64_length ne nl by blast
qed

lemma Square_length:
  fixes x :: "'a::len word Num3072"
  assumes "build_ok TYPE('a)" "length (limbs x) = LIMBS TYPE('a)"
  shows "length (limbs (Square x)) = LIMBS TYPE('a)"
  unfolding Square_eq_Multiply by (rule Multiply_length [OF assms assms(2)])

lemma Square_mod:
  fixes x :: "'a::len word Num3072"
  assumes "build_ok TYPE('a)" "length (limbs x) = LIMBS TYPE('a)"
  shows "num_value (Square x) mod prime_P = (num_value x * num_value x) mod prime_P"
  unfolding Square_eq_Multiply by (rule Multiply_mod [OF assms assms(2)])

lemma Multiply_carry_facts:
  fixes x a :: "'a::len word Num3072"
  assumes b: "build_ok TYPE('a)"
    and lx: "length (limbs x) = LIMBS TYPE('a)" and la: "length (limbs a) = LIMBS TYPE('a)"
  shows "case Multiply_carry x a of (c0, c1, r) \<Rightarrow>
      c1 = 0 \<and> (c0 = 0 \<or> c0 = 1)
      \<and> (num_value r + 2 ^ 3072 * unat c0) mod prime_P = (num_value x * num_value a) mod prime_P
      \<and> (c0 = 1 \<longrightarrow> num_value (Multiply x a) < prime_P)"
proof -
  obtain c0 r where mc: "Multiply_carry x a = (c0, 0, r)" and c0: "unat c0 \<le> 1"
    and can: "c0 \<noteq> 0 \<longrightarrow> num_value (Multiply x a) < prime_P"
    and v: "(num_value r + (2 ^ LENGTH('a)) ^ LIMBS TYPE('a) * unat c0) mod prime_P
          = (low_part (limbs x) (limbs a) + 1103717 * high_part (limbs x) (limbs a)) mod prime_P"
    using Multiply_facts [OF b lx la] by blast
  have "(low_part (limbs x) (limbs a) + 1103717 * high_part (limbs x) (limbs a)) mod prime_P
      = (num_value x * num_value a) mod prime_P"
    by (simp only: product_T [OF b lx la] mod_mult_self2)
  then have v': "(num_value r + 2 ^ 3072 * unat c0) mod prime_P = (num_value x * num_value a) mod prime_P"
    using v by (simp only: build_radix_pow [OF b])
  have "unat c0 = 0 \<or> unat c0 = 1" using c0 by linarith
  then have "c0 = 0 \<or> c0 = 1" by (auto simp: word_unat_eq_iff)
  moreover have "c0 = 1 \<longrightarrow> num_value (Multiply x a) < prime_P" using can by simp
  ultimately show ?thesis using v' by (simp only: mc prod.case simp_thms)
qed

text \<open>
  C7. For every pair of operands of either build (values in \<open>[0, 2^3072)\<close>), the state
  \<open>(c0, c1, in_out)\<close> of \<open>Multiply\<close> at the place of the \<open>DEBUG\<close> assertions, after the
  second reduction, has \<open>c1 = 0\<close> and \<open>c0\<close> equal to 0 or 1, and \<open>in_out\<close> together with
  the carry \<open>c0\<close> at weight \<open>2^3072\<close> is congruent to the product modulo \<open>P\<close>: no carry
  has been lost. The same holds for \<open>Square\<close>. After the one conditional \<open>FullReduce\<close> the
  limbs alone are congruent to the product, and when the carry was 1 the result of that
  \<open>FullReduce\<close> is already below \<open>P\<close>.
\<close>

theorem second_reduction_carry_is_0_or_1:
  fixes x a :: "'a::len limb_t Num3072"
  assumes "build_ok TYPE('a)"
    and "length (limbs x) = LIMBS TYPE('a)" and "length (limbs a) = LIMBS TYPE('a)"
  shows "(case Multiply_carry x a of (c0, c1, r) \<Rightarrow>
            c1 = 0 \<and> (c0 = 0 \<or> c0 = 1)
            \<and> (num_value r + 2 ^ 3072 * unat c0) mod prime_P = (num_value x * num_value a) mod prime_P
            \<and> (c0 = 1 \<longrightarrow> num_value (Multiply x a) < prime_P))
    \<and> (case Square_carry x of (c0, c1, r) \<Rightarrow>
            c1 = 0 \<and> (c0 = 0 \<or> c0 = 1)
            \<and> (num_value r + 2 ^ 3072 * unat c0) mod prime_P = (num_value x * num_value x) mod prime_P
            \<and> (c0 = 1 \<longrightarrow> num_value (Square x) < prime_P))
    \<and> num_value (Multiply x a) mod prime_P = (num_value x * num_value a) mod prime_P
    \<and> num_value (Square x) mod prime_P = (num_value x * num_value x) mod prime_P"
  using Multiply_carry_facts [OF assms] Multiply_carry_facts [OF assms(1,2,2)]
    Multiply_mod [OF assms] Multiply_mod [OF assms(1,2,2)]
  unfolding Square_carry_eq Square_eq_Multiply by (intro conjI)

theorem second_reduction_carry_is_0_or_1_witness:
  "build_ok TYPE(64) \<and> length (limbs two_64) = LIMBS TYPE(64) \<and> length (limbs half_64) = LIMBS TYPE(64)
     \<and> num_value (Square two_64) mod prime_P = (num_value two_64 * num_value two_64) mod prime_P"
  using second_reduction_carry_is_0_or_1 [OF build_ok_64 two_64_length half_64_length]
    build_ok_64 two_64_length half_64_length by blast

section \<open>\<open>Finalize\<close> and the compound assignments\<close>

lemma FullReduce_window:
  fixes d :: "'a::len word Num3072"
  assumes b: "build_ok TYPE('a)" and len: "length (limbs d) = LIMBS TYPE('a)"
    and ov: "prime_P \<le> num_value d"
  shows "num_value (FullReduce d) + prime_P = num_value d \<and> num_value (FullReduce d) < 1103717"
proof -
  have lt: "num_value d < prime_P + 1103717" by (rule num_value_lt [OF b len])
  have "num_value (FullReduce d) = (num_value d + 1103717) mod (prime_P + 1103717)"
    using FullReduce_value [OF len b] by (simp only: P_plus_C)
  moreover have "num_value d + 1103717 = (num_value d - prime_P) + (prime_P + 1103717)"
    using ov by linarith
  ultimately have "num_value (FullReduce d) = (num_value d - prime_P) mod (prime_P + 1103717)"
    by (simp only: mod_add_self2)
  moreover have "num_value d - prime_P < prime_P + 1103717" using lt by linarith
  ultimately have "num_value (FullReduce d) = num_value d - prime_P" by simp
  then show ?thesis using ov lt by linarith
qed

lemma C_lt_P: "(1103717::nat) < prime_P"
  by (simp add: prime_P_def)

text \<open>The object of the default constructor has the value 1.\<close>

lemma fold_clear_zero:
  fixes l :: "'a::len word list"
  assumes "\<forall>i\<in>set is. i < length l \<longrightarrow> l ! i = 0"
  shows "fold (\<lambda>i l. l[i := 0]) is l = l"
  using assms
proof (induction "is")
  case Nil
  show ?case by simp
next
  case (Cons i "is")
  have "l[i := 0] = l"
  proof (cases "i < length l")
    case True
    then have "l ! i = 0" using Cons.prems by simp
    then have "l[i := l ! i] = l[i := 0]" by simp
    then show ?thesis by (simp only: list_update_id)
  next
    case False
    then have "length l \<le> i" by simp
    then show ?thesis by (rule list_update_beyond)
  qed
  then show ?case using Cons by simp
qed

lemma MuHash3072_empty_value: "num_value (data (MuHash3072_empty :: 'a::len word MuHash3072)) = 1"
proof -
  define l :: "'a word list" where "l = (replicate (LIMBS TYPE('a)) 0)[0 := 1]"
  obtain n where n: "LIMBS TYPE('a) = Suc n"
    using LIMBS_pos [where 'a = 'a] by (cases "LIMBS TYPE('a)") auto
  have l: "l = 1 # replicate n 0" by (simp add: l_def n)
  have "\<forall>i\<in>set [1..<LIMBS TYPE('a)]. i < length l \<longrightarrow> l ! i = 0"
    by (auto simp: l nth_Cons')
  then have "fold (\<lambda>i l. l[i := 0]) [1..<LIMBS TYPE('a)] l = l"
    by (rule fold_clear_zero)
  then show ?thesis
    by (simp add: MuHash3072_empty_def num_value_def l_def [symmetric]) (simp add: l limbs_value_zeros)
qed

lemma Finalize_fst:
  "fst (Finalize h) = (if IsOverflow (data h) then h\<lparr>data := FullReduce (data h)\<rparr> else h)"
  by (simp add: Finalize_def Let_def)

lemma Finalize_snd:
  fixes h :: "'a::len word MuHash3072"
  shows "snd (Finalize h)
      = concat (map (\<lambda>i. WriteLE (limbs (data (fst (Finalize h))) ! i)) [0..<LIMBS TYPE('a)])"
  by (simp add: Finalize_def Let_def)

lemma Finalize_canonical:
  fixes h :: "'a::len word MuHash3072"
  assumes b: "build_ok TYPE('a)" and len: "length (limbs (data h)) = LIMBS TYPE('a)"
  shows "length (limbs (data (fst (Finalize h)))) = LIMBS TYPE('a)
    \<and> num_value (data (fst (Finalize h))) < prime_P
    \<and> num_value (data (fst (Finalize h))) = num_value (data h) mod prime_P"
proof (cases "IsOverflow (data h)")
  case True
  then have ov: "prime_P \<le> num_value (data h)" using IsOverflow_iff [OF len b] by simp
  have w: "num_value (FullReduce (data h)) + prime_P = num_value (data h)"
    "num_value (FullReduce (data h)) < 1103717"
    using FullReduce_window [OF b len ov] by simp_all
  have lt: "num_value (FullReduce (data h)) < prime_P" using w(2) C_lt_P by linarith
  have "num_value (data h) mod prime_P = (num_value (FullReduce (data h)) + prime_P) mod prime_P"
    by (simp only: w(1))
  then have "num_value (data h) mod prime_P = num_value (FullReduce (data h))"
    using lt by simp
  then show ?thesis
    using True lt by (simp add: Finalize_fst FullReduce_length [OF len])
next
  case False
  then have "num_value (data h) < prime_P" using IsOverflow_iff [OF len b] by simp
  then show ?thesis using False len by (simp add: Finalize_fst)
qed

lemma Finalize_idem:
  fixes h :: "'a::len word MuHash3072"
  assumes b: "build_ok TYPE('a)" and len: "length (limbs (data h)) = LIMBS TYPE('a)"
  shows "Finalize (fst (Finalize h)) = Finalize h"
proof -
  have c: "length (limbs (data (fst (Finalize h)))) = LIMBS TYPE('a)"
    "num_value (data (fst (Finalize h))) < prime_P"
    using Finalize_canonical [OF b len] by simp_all
  have "\<not> IsOverflow (data (fst (Finalize h)))"
    using IsOverflow_iff [OF c(1) b] c(2) by simp
  then have f: "fst (Finalize (fst (Finalize h))) = fst (Finalize h)"
    by (simp add: Finalize_fst)
  have "snd (Finalize (fst (Finalize h))) = snd (Finalize h)"
    by (simp only: Finalize_snd f)
  then show ?thesis using f by (simp add: prod_eq_iff)
qed

lemma WriteLE_length: "length (WriteLE (x :: 'a::len word)) = LENGTH('a) div 8"
  by (simp add: WriteLE_def)

lemma Finalize_output_length:
  fixes h :: "'a::len word MuHash3072"
  assumes b: "build_ok TYPE('a)"
  shows "length (snd (Finalize h)) = 384"
proof -
  have "length (snd (Finalize h)) = (\<Sum>i\<leftarrow>[0..<LIMBS TYPE('a)]. LENGTH('a) div 8)"
    by (simp add: Finalize_snd length_concat comp_def WriteLE_length)
  also have "\<dots> = LIMBS TYPE('a) * (LENGTH('a) div 8)"
    by (simp add: sum_list_triv)
  also have "\<dots> = 384" using b by (auto simp: build_ok_def LIMBS_def)
  finally show ?thesis .
qed

text \<open>
  C8, as amended. \<open>Finalize\<close> leaves the value of the object unchanged modulo \<open>P\<close> and
  stores its canonical representative: after the call the value is the old value modulo
  \<open>P\<close>, so the object is untouched exactly when its value was below \<open>P\<close>, and in the
  overflow window its limbs are replaced by those of \<open>v - P\<close>. A second call changes
  nothing more and writes the same 384 bytes.
\<close>

theorem Finalize_normalises_and_repeats:
  fixes h :: "'a::len limb_t MuHash3072"
  assumes "build_ok TYPE('a)" and "length (limbs (data h)) = LIMBS TYPE('a)"
  shows "num_value (data (fst (Finalize h))) = num_value (data h) mod prime_P
    \<and> (num_value (data h) < prime_P \<longrightarrow> fst (Finalize h) = h)
    \<and> (prime_P \<le> num_value (data h) \<longrightarrow> num_value (data (fst (Finalize h))) = num_value (data h) - prime_P)
    \<and> fst (Finalize (fst (Finalize h))) = fst (Finalize h)
    \<and> snd (Finalize (fst (Finalize h))) = snd (Finalize h)
    \<and> length (snd (Finalize h)) = 384"
proof -
  have v: "num_value (data (fst (Finalize h))) = num_value (data h) mod prime_P"
    using Finalize_canonical [OF assms] by simp
  have same: "fst (Finalize h) = h" if "num_value (data h) < prime_P"
    using that IsOverflow_iff [OF assms(2,1)] by (simp add: Finalize_fst)
  have win: "num_value (data (fst (Finalize h))) = num_value (data h) - prime_P"
    if ov: "prime_P \<le> num_value (data h)"
  proof -
    have o: "IsOverflow (data h)" using ov IsOverflow_iff [OF assms(2,1)] by simp
    have "num_value (FullReduce (data h)) = num_value (data h) - prime_P"
      using FullReduce_window [OF assms ov] by linarith
    then show ?thesis using o by (simp add: Finalize_fst)
  qed
  show ?thesis
    using v same win Finalize_idem [OF assms] Finalize_output_length [OF assms(1), of h] by simp
qed

theorem Finalize_normalises_and_repeats_witness:
  "build_ok TYPE(64) \<and> length (limbs (data \<lparr>data = all_max_64\<rparr>)) = LIMBS TYPE(64)
     \<and> prime_P \<le> num_value (data \<lparr>data = all_max_64\<rparr>)
     \<and> num_value (data (fst (Finalize \<lparr>data = all_max_64\<rparr>)))
          = num_value (data \<lparr>data = all_max_64\<rparr>) - prime_P
     \<and> snd (Finalize (fst (Finalize \<lparr>data = all_max_64\<rparr>))) = snd (Finalize \<lparr>data = all_max_64\<rparr>)"
proof -
  have l: "length (limbs (data \<lparr>data = all_max_64\<rparr>)) = LIMBS TYPE(64)"
    by (simp add: all_max_64_length)
  have ov: "prime_P \<le> num_value (data \<lparr>data = all_max_64\<rparr>)"
    by (simp add: all_max_64_value prime_P_def)
  show ?thesis
    using Finalize_normalises_and_repeats [OF build_ok_64 l] build_ok_64 l ov by blast
qed

text \<open>
  C8 as stated fails in the overflow window: on the object with every limb at the maximum
  (value \<open>2^3072 - 1\<close>) \<open>Finalize\<close> calls \<open>FullReduce\<close>, and the object is left with the
  value 1103716.
\<close>

theorem Finalize_changes_overflowed_object:
  "num_value (data (fst (Finalize \<lparr>data = all_max_64\<rparr>))) = 1103716
     \<and> num_value (data \<lparr>data = all_max_64\<rparr>) = 2 ^ 3072 - 1
     \<and> fst (Finalize \<lparr>data = all_max_64\<rparr>) \<noteq> \<lparr>data = all_max_64\<rparr>"
proof -
  have ov: "prime_P \<le> num_value all_max_64"
    by (simp add: all_max_64_value prime_P_def)
  then have o: "IsOverflow all_max_64"
    using IsOverflow_iff [OF all_max_64_length build_ok_64] by simp
  have "num_value (FullReduce all_max_64) + prime_P = num_value all_max_64"
    using FullReduce_window [OF build_ok_64 all_max_64_length ov] by simp
  then have r: "num_value (FullReduce all_max_64) = 1103716"
    by (simp add: all_max_64_value prime_P_def)
  have "num_value all_max_64 \<noteq> 1103716" by (simp add: all_max_64_value)
  then have "FullReduce all_max_64 \<noteq> all_max_64" using r by auto
  then show ?thesis using r o by (simp add: Finalize_fst all_max_64_value)
qed

text \<open>
  The calls through pointers and the functions on values: every write of \<open>Multiply\<close> goes
  to the object at \<open>this\<close>, after the last read of the other operand.
\<close>

lemma data_update_same: "h\<lparr>data := data h\<rparr> = h"
  by (cases h) simp

lemma store_limb_set: "(store_limb s this j n)(this := h) = s(this := h)"
  by (simp add: store_limb_def)

lemma store_limb_data:
  "data (store_limb s this j n this) = (data (s this))\<lparr>limbs := (limbs (data (s this)))[j := n]\<rparr>"
  by (simp add: store_limb_def)

lemma store_limb_object:
  "(store_limb s this j n this)\<lparr>data := d\<rparr> = (s this)\<lparr>data := d\<rparr>"
  by (simp add: store_limb_def)

lemma fold_reduce2_at:
  "fold (reduce2_at_step this tmp) js (c0, c1, s)
     = (case fold (reduce2_step tmp) js (c0, c1, data (s this)) of
          (d0, d1, io) \<Rightarrow> (d0, d1, s(this := (s this)\<lparr>data := io\<rparr>)))"
proof (induction js arbitrary: c0 c1 s)
  case Nil
  show ?case by (simp only: fold_simps prod.case data_update_same fun_upd_triv)
next
  case (Cons j js)
  obtain e0 e1 n where e: "extract2 (add2 (c0, c1) (limbs tmp ! j)) = ((e0, e1), n)"
    by (metis surj_pair)
  have at: "reduce2_at_step this tmp j (c0, c1, s) = (e0, e1, store_limb s this j n)"
    by (simp add: reduce2_at_step_def Let_def e)
  have pure: "reduce2_step tmp j (c0, c1, data (s this))
      = (e0, e1, (data (s this))\<lparr>limbs := (limbs (data (s this)))[j := n]\<rparr>)"
    by (simp add: reduce2_step_def Let_def e)
  show ?case
    by (simp only: fold_simps at pure Cons.IH store_limb_data store_limb_set store_limb_object)
qed

lemma fold_FullReduce_at:
  "fold (FullReduce_at_step this) js (c0, s)
     = (case fold FullReduce_step js (c0, data (s this)) of
          (d0, d) \<Rightarrow> (d0, s(this := (s this)\<lparr>data := d\<rparr>)))"
proof (induction js arbitrary: c0 s)
  case Nil
  show ?case by (simp only: fold_simps prod.case data_update_same fun_upd_triv)
next
  case (Cons j js)
  obtain e0 e1 n where e: "extract2 (add2 (c0, 0) (limbs (data (s this)) ! j)) = ((e0, e1), n)"
    by (metis surj_pair)
  have at: "FullReduce_at_step this j (c0, s) = (e0, store_limb s this j n)"
    by (simp add: FullReduce_at_step_def Let_def e)
  have pure: "FullReduce_step j (c0, data (s this))
      = (e0, (data (s this))\<lparr>limbs := (limbs (data (s this)))[j := n]\<rparr>)"
    by (simp add: FullReduce_step_def Let_def e)
  show ?case
    by (simp only: fold_simps at pure Cons.IH store_limb_data store_limb_set store_limb_object)
qed

lemma FullReduce_at_eq:
  "FullReduce_at s this = s(this := (s this)\<lparr>data := FullReduce (data (s this))\<rparr>)"
  by (simp add: FullReduce_at_def FullReduce_def fold_FullReduce_at split: prod.splits)

lemma Multiply_at_eq:
  "Multiply_at s this a = s(this := (s this)\<lparr>data := Multiply (data (s this)) (deref s a)\<rparr>)"
proof -
  define st where "st = Multiply_last (data (s this)) (deref s a)
     (fold (Multiply_step (data (s this)) (deref s a)) [0..<LIMBS TYPE('a) - 1] (0, 0, tmp_init))"
  obtain b0 b1 tmp where st: "st = (b0, b1, tmp)" by (metis surj_pair)
  obtain m0 m1 where m: "muln2 (b0, b1) MAX_PRIME_DIFF = (m0, m1)" by (metis surj_pair)
  obtain d0 d1 io where r: "fold (reduce2_step tmp) [0..<LIMBS TYPE('a)] (m0, m1, data (s this)) = (d0, d1, io)"
    by (metis surj_pair)
  have at: "Multiply_at s this a
      = (if d0 \<noteq> 0 then FullReduce_at (s(this := (s this)\<lparr>data := io\<rparr>)) this
         else s(this := (s this)\<lparr>data := io\<rparr>))"
    unfolding Multiply_at_def Let_def st_def [symmetric]
    by (simp add: st m fold_reduce2_at r)
  have pure: "Multiply (data (s this)) (deref s a) = (if d0 \<noteq> 0 then FullReduce io else io)"
    unfolding Multiply_def Multiply_carry_def Let_def st_def [symmetric]
    by (simp add: st second_reduction_def m r)
  show ?thesis
    unfolding at pure by (simp add: FullReduce_at_eq)
qed

lemma operator_mul_assign_eq:
  "operator_mul_assign s this x
     = s(this := (s this)\<lparr>data := Multiply (data (s this)) (data (s x))\<rparr>)"
  by (simp add: operator_mul_assign_def Multiply_at_eq deref_def)

lemma operator_div_assign_eq:
  "operator_div_assign s this x
     = s(this := (s this)\<lparr>data := Multiply (data (s this)) (Inverse (data (s x)))\<rparr>)"
  by (simp add: operator_div_assign_def Multiply_at_eq deref_def Let_def)

section \<open>The exponent computed by \<open>Inverse\<close>\<close>

lemma Multiply_rep:
  fixes y z :: "'a::len word Num3072"
  assumes b: "build_ok TYPE('a)" and y: "power_rep y v e1" and z: "power_rep z v e2"
  shows "power_rep (Multiply y z) v (e1 + e2)"
proof -
  have ly: "length (limbs y) = LIMBS TYPE('a)" and lz: "length (limbs z) = LIMBS TYPE('a)"
    using y z by (simp_all add: power_rep_def)
  have "num_value (Multiply y z) mod prime_P = (num_value y * num_value z) mod prime_P"
    by (rule Multiply_mod [OF b ly lz])
  also have "\<dots> = ((num_value y mod prime_P) * (num_value z mod prime_P)) mod prime_P"
    by (simp only: mod_mult_eq)
  also have "\<dots> = ((v ^ e1 mod prime_P) * (v ^ e2 mod prime_P)) mod prime_P"
    using y z by (simp add: power_rep_def)
  also have "\<dots> = v ^ (e1 + e2) mod prime_P"
    by (simp only: mod_mult_eq power_add)
  finally show ?thesis
    using Multiply_length [OF b ly lz] by (simp add: power_rep_def)
qed

lemma Square_times_Suc: "Square_times (Suc n) y = Square (Square_times n y)"
  by (simp add: Square_times_def)

lemma Square_times_rep:
  fixes y :: "'a::len word Num3072"
  assumes b: "build_ok TYPE('a)" and y: "power_rep y v e"
  shows "power_rep (Square_times n y) v (e * 2 ^ n)"
proof (induction n)
  case 0
  show ?case using y by (simp add: Square_times_def)
next
  case (Suc n)
  have "power_rep (Multiply (Square_times n y) (Square_times n y)) v (e * 2 ^ n + e * 2 ^ n)"
    by (rule Multiply_rep [OF b Suc Suc])
  moreover have "e * 2 ^ n + e * 2 ^ n = e * 2 ^ Suc n" by simp
  ultimately show ?case by (simp only: Square_times_Suc Square_eq_Multiply)
qed

lemma chain_step:
  fixes x q :: "'a::len word Num3072"
  assumes b: "build_ok TYPE('a)" and x: "power_rep x v (2 ^ k - m)" and q: "power_rep q v r"
    and k': "k' = k + s" and m': "m' + r = m * 2 ^ s" and m: "m \<le> 2 ^ k"
  shows "power_rep (Multiply (Square_times s x) q) v (2 ^ k' - m')"
proof -
  have "power_rep (Multiply (Square_times s x) q) v ((2 ^ k - m) * 2 ^ s + r)"
    by (rule Multiply_rep [OF b Square_times_rep [OF b x] q])
  moreover have "(2 ^ k - m) * 2 ^ s + r = 2 ^ k' - m'"
  proof -
    have "(2::nat) ^ k' = 2 ^ k * 2 ^ s" by (simp add: k' power_add)
    moreover have "m * 2 ^ s \<le> 2 ^ k * (2::nat) ^ s" using m by (rule mult_le_mono1)
    moreover have "(2 ^ k - m) * 2 ^ s = 2 ^ k * 2 ^ s - m * (2::nat) ^ s"
      by (rule diff_mult_distrib)
    ultimately show ?thesis using m' by linarith
  qed
  ultimately show ?thesis by simp
qed

lemma chain_full:
  fixes x q :: "'a::len word Num3072"
  assumes b: "build_ok TYPE('a)" and x: "power_rep x v (2 ^ k - 1)" and q: "power_rep q v (2 ^ s - 1)"
    and k': "k' = k + s"
  shows "power_rep (Multiply (Square_times s x) q) v (2 ^ k' - 1)"
proof (rule chain_step [OF b x q k'])
  have "(1::nat) \<le> 2 ^ s" by simp
  then show "1 + (2 ^ s - 1) = 1 * (2::nat) ^ s" by linarith
  show "(1::nat) \<le> 2 ^ k" by simp
qed

lemma small_le_power:
  fixes m :: nat
  assumes "m \<le> 2 ^ 21" "21 \<le> k"
  shows "m \<le> 2 ^ k"
proof -
  have "(2::nat) ^ 21 \<le> 2 ^ k" using assms(2) by (intro power_increasing) simp_all
  then show ?thesis using assms(1) by linarith
qed

lemma repunit_double:
  "(2 ^ (2 ^ i) - 1) * 2 ^ (2 ^ i) + (2 ^ (2 ^ i) - 1) = 2 ^ (2 ^ Suc i) - (1::nat)"
proof -
  define t :: nat where "t = 2 ^ (2 ^ i)"
  have t: "1 \<le> t" by (simp add: t_def)
  have "(2::nat) ^ (2 ^ Suc i) = t * t" by (simp add: t_def power_add [symmetric] mult_2)
  moreover have "(t - 1) * t + (t - 1) = t * t - 1"
    using t by (cases t) (simp_all add: algebra_simps)
  ultimately show ?thesis by (simp add: t_def)
qed

lemma Inverse_table_step_eq:
  assumes "i + 1 < length p"
  shows "Inverse_table_step i p = p[i + 1 := Multiply (Square_times (2 ^ i) (p ! i)) (p ! i)]"
  using assms by (simp add: Inverse_table_step_def Let_def push_bit_eq_mult)

lemma Inverse_table_loop:
  fixes a :: "'a::len word Num3072"
  assumes b: "build_ok TYPE('a)" and a: "power_rep a v 1" and k: "k \<le> 11"
  shows "length (fold Inverse_table_step [0..<k] ((replicate 12 tmp_init)[0 := a])) = 12
    \<and> fold Inverse_table_step [0..<k] ((replicate 12 tmp_init)[0 := a]) ! 0 = a
    \<and> (\<forall>i\<le>k. power_rep (fold Inverse_table_step [0..<k] ((replicate 12 tmp_init)[0 := a]) ! i) v (2 ^ (2 ^ i) - 1))"
  using k
proof (induction k)
  case 0
  show ?case using a by simp
next
  case (Suc k)
  define p where "p = fold Inverse_table_step [0..<k] ((replicate 12 tmp_init)[0 := a])"
  have len: "length p = 12" and p0: "p ! 0 = a"
    and ih: "\<forall>i\<le>k. power_rep (p ! i) v (2 ^ (2 ^ i) - 1)"
    using Suc unfolding p_def by simp_all
  have k: "k + 1 < length p" using Suc.prems len by simp
  have st: "fold Inverse_table_step [0..<Suc k] ((replicate 12 tmp_init)[0 := a])
      = p[k + 1 := Multiply (Square_times (2 ^ k) (p ! k)) (p ! k)]"
    by (simp add: p_def [symmetric] Inverse_table_step_eq [OF k])
  have pk: "power_rep (p ! k) v (2 ^ (2 ^ k) - 1)" using ih by simp
  have "power_rep (Multiply (Square_times (2 ^ k) (p ! k)) (p ! k)) v
      ((2 ^ (2 ^ k) - 1) * 2 ^ (2 ^ k) + (2 ^ (2 ^ k) - 1))"
    by (rule Multiply_rep [OF b Square_times_rep [OF b pk] pk])
  then have new: "power_rep (Multiply (Square_times (2 ^ k) (p ! k)) (p ! k)) v (2 ^ (2 ^ Suc k) - 1)"
    by (simp only: repunit_double)
  have "\<forall>i\<le>Suc k. power_rep (p[k + 1 := Multiply (Square_times (2 ^ k) (p ! k)) (p ! k)] ! i) v (2 ^ (2 ^ i) - 1)"
  proof (intro allI impI)
    fix i assume i: "i \<le> Suc k"
    show "power_rep (p[k + 1 := Multiply (Square_times (2 ^ k) (p ! k)) (p ! k)] ! i) v (2 ^ (2 ^ i) - 1)"
    proof (cases "i = Suc k")
      case True
      then show ?thesis using new k by simp
    next
      case False
      then have "i \<le> k" using i by simp
      then show ?thesis using ih False by simp
    qed
  qed
  then show ?case
    unfolding st using len p0 by simp
qed

lemma power_rep_self:
  fixes a :: "'a::len word Num3072"
  assumes "length (limbs a) = LIMBS TYPE('a)"
  shows "power_rep a (num_value a) 1"
  using assms by (simp add: power_rep_def)

lemma Inverse_spec:
  fixes a :: "'a::len word Num3072"
  assumes b: "build_ok TYPE('a)" and len: "length (limbs a) = LIMBS TYPE('a)"
  shows "\<exists>x'. Inverse a = Multiply x' a \<and> length (limbs x') = LIMBS TYPE('a)
     \<and> power_rep (Inverse a) (num_value a) (2 ^ 3072 - 1103719)"
proof -
  define v where "v = num_value a"
  define p where "p = Inverse_table a"
  have tab: "p ! 0 = a" "\<forall>i\<le>11. power_rep (p ! i) v (2 ^ (2 ^ i) - 1)"
    using Inverse_table_loop [OF b power_rep_self [OF len] le_refl]
    unfolding p_def Inverse_table_def v_def by simp_all
  have t0: "power_rep (p ! 0) v 1" using tab(2) [rule_format, of 0] by simp
  have t1: "power_rep (p ! 1) v 3" using tab(2) [rule_format, of 1] by simp
  have t2: "power_rep (p ! 2) v 15" using tab(2) [rule_format, of 2] by simp
  have t3: "power_rep (p ! 3) v (2 ^ 8 - 1)" using tab(2) [rule_format, of 3] by simp
  have e5: "(2::nat) ^ 5 = 32" and e6: "(2::nat) ^ 6 = 64" and e7: "(2::nat) ^ 7 = 128"
    and e8: "(2::nat) ^ 8 = 256" and e9: "(2::nat) ^ 9 = 512" and e11: "(2::nat) ^ 11 = 2048"
    by simp_all
  have t5: "power_rep (p ! 5) v (2 ^ 32 - 1)"
    using tab(2) [rule_format, of 5] by (simp only: e5)
  have t6: "power_rep (p ! 6) v (2 ^ 64 - 1)"
    using tab(2) [rule_format, of 6] by (simp only: e6)
  have t7: "power_rep (p ! 7) v (2 ^ 128 - 1)"
    using tab(2) [rule_format, of 7] by (simp only: e7)
  have t8: "power_rep (p ! 8) v (2 ^ 256 - 1)"
    using tab(2) [rule_format, of 8] by (simp only: e8)
  have t9: "power_rep (p ! 9) v (2 ^ 512 - 1)"
    using tab(2) [rule_format, of 9] by (simp only: e9)
  have x0: "power_rep (p ! 11) v (2 ^ 2048 - 1)"
    using tab(2) [rule_format, of 11] by (simp only: e11)
  define x1 where "x1 = Multiply (Square_times 512 (p ! 11)) (p ! 9)"
  define x2 where "x2 = Multiply (Square_times 256 x1) (p ! 8)"
  define x3 where "x3 = Multiply (Square_times 128 x2) (p ! 7)"
  define x4 where "x4 = Multiply (Square_times 64 x3) (p ! 6)"
  define x5 where "x5 = Multiply (Square_times 32 x4) (p ! 5)"
  define x6 where "x6 = Multiply (Square_times 8 x5) (p ! 3)"
  define x7 where "x7 = Multiply (Square_times 2 x6) (p ! 1)"
  define x8 where "x8 = Multiply (Square_times 1 x7) (p ! 0)"
  define x9 where "x9 = Multiply (Square_times 5 x8) (p ! 2)"
  define x10 where "x10 = Multiply (Square_times 3 x9) (p ! 0)"
  define x11 where "x11 = Multiply (Square_times 2 x10) (p ! 0)"
  define x12 where "x12 = Multiply (Square_times 4 x11) (p ! 0)"
  define x13 where "x13 = Multiply (Square_times 4 x12) (p ! 1)"
  define x14 where "x14 = Multiply (Square_times 3 x13) (p ! 0)"
  have r1: "power_rep x1 v (2 ^ 2560 - 1)"
    unfolding x1_def by (rule chain_full [OF b x0 t9]) simp
  have r2: "power_rep x2 v (2 ^ 2816 - 1)"
    unfolding x2_def by (rule chain_full [OF b r1 t8]) simp
  have r3: "power_rep x3 v (2 ^ 2944 - 1)"
    unfolding x3_def by (rule chain_full [OF b r2 t7]) simp
  have r4: "power_rep x4 v (2 ^ 3008 - 1)"
    unfolding x4_def by (rule chain_full [OF b r3 t6]) simp
  have r5: "power_rep x5 v (2 ^ 3040 - 1)"
    unfolding x5_def by (rule chain_full [OF b r4 t5]) simp
  have r6: "power_rep x6 v (2 ^ 3048 - 1)"
    unfolding x6_def by (rule chain_full [OF b r5 t3]) simp
  have r7: "power_rep x7 v (2 ^ 3050 - 1)"
    unfolding x7_def by (rule chain_step [OF b r6 t1]) simp_all
  have r8: "power_rep x8 v (2 ^ 3051 - 1)"
    unfolding x8_def by (rule chain_step [OF b r7 t0]) simp_all
  have r9: "power_rep x9 v (2 ^ 3056 - 17)"
    unfolding x9_def by (rule chain_step [OF b r8 t2]) simp_all
  have r10: "power_rep x10 v (2 ^ 3059 - 135)"
    unfolding x10_def by (rule chain_step [OF b r9 t0 _ _ small_le_power]) simp_all
  have r11: "power_rep x11 v (2 ^ 3061 - 539)"
    unfolding x11_def by (rule chain_step [OF b r10 t0 _ _ small_le_power]) simp_all
  have r12: "power_rep x12 v (2 ^ 3065 - 8623)"
    unfolding x12_def by (rule chain_step [OF b r11 t0 _ _ small_le_power]) simp_all
  have r13: "power_rep x13 v (2 ^ 3069 - 137965)"
    unfolding x13_def by (rule chain_step [OF b r12 t1 _ _ small_le_power]) simp_all
  have r14: "power_rep x14 v (2 ^ 3072 - 1103719)"
    unfolding x14_def by (rule chain_step [OF b r13 t0 _ _ small_le_power]) simp_all
  have inv: "Inverse a = x14"
    unfolding Inverse_def Let_def p_def [symmetric]
      x1_def [symmetric] x2_def [symmetric] x3_def [symmetric] x4_def [symmetric]
      x5_def [symmetric] x6_def [symmetric] x7_def [symmetric] x8_def [symmetric]
      x9_def [symmetric] x10_def [symmetric] x11_def [symmetric] x12_def [symmetric]
      x13_def [symmetric] x14_def [symmetric]
    by (rule refl)
  have l: "length (limbs (Square_times 3 x13)) = LIMBS TYPE('a)"
    using Square_times_rep [OF b r13, of 3] by (simp only: power_rep_def)
  have "Inverse a = Multiply (Square_times 3 x13) a"
    unfolding inv x14_def tab(1) by (rule refl)
  then show ?thesis using l r14 unfolding inv v_def by blast
qed

lemma P_minus_2: "prime_P - 2 = 2 ^ 3072 - 1103719"
  by (simp add: prime_P_def)

lemma P_gt_6: "6 < prime_P"
  by (simp add: prime_P_def)

text \<open>
  The exponent of the addition chain. For every \<open>Num3072\<close> \<open>a\<close> of either build, the
  output of \<open>Inverse\<close> is below \<open>2^3072\<close> and congruent to \<open>a^(P - 2)\<close> modulo \<open>P\<close>, where
  \<open>P - 2 = 2^3072 - 1103719\<close> is what the table of repunit powers and the fixed schedule
  add up to; \<open>a\<close> times the output is congruent to \<open>a^(P - 1)\<close>. Whether \<open>a^(P - 1)\<close> is 1
  modulo \<open>P\<close> is Fermat's little theorem for \<open>P\<close>, which is not derived here.
\<close>

lemma Inverse_power_mod_P:
  fixes a :: "'a::len limb_t Num3072"
  assumes "build_ok TYPE('a)" and "length (limbs a) = LIMBS TYPE('a)"
  shows "length (limbs (Inverse a)) = LIMBS TYPE('a)
    \<and> num_value (Inverse a) < 2 ^ 3072
    \<and> prime_P - 2 = 2 ^ 3072 - 1103719
    \<and> num_value (Inverse a) mod prime_P = num_value a ^ (prime_P - 2) mod prime_P
    \<and> (num_value a * num_value (Inverse a)) mod prime_P = num_value a ^ (prime_P - 1) mod prime_P"
proof -
  have r: "power_rep (Inverse a) (num_value a) (prime_P - 2)"
    using Inverse_spec [OF assms] unfolding P_minus_2 by blast
  then have len: "length (limbs (Inverse a)) = LIMBS TYPE('a)"
    and md: "num_value (Inverse a) mod prime_P = num_value a ^ (prime_P - 2) mod prime_P"
    by (simp_all add: power_rep_def)
  have lt: "num_value (Inverse a) < 2 ^ 3072"
    using num_value_lt [OF assms(1) len] unfolding P_plus_C .
  have s: "Suc (prime_P - 2) = prime_P - 1" using P_gt_6 by linarith
  have "(num_value a * num_value (Inverse a)) mod prime_P
      = (num_value a * (num_value (Inverse a) mod prime_P)) mod prime_P"
    by (simp only: mod_mult_right_eq)
  also have "\<dots> = (num_value a * num_value a ^ (prime_P - 2)) mod prime_P"
    by (simp only: md mod_mult_right_eq)
  also have "\<dots> = num_value a ^ (prime_P - 1) mod prime_P"
    by (simp only: power_Suc [symmetric] s)
  finally show ?thesis using len lt md P_minus_2 by blast
qed

text \<open>
  At the canonical, nonzero operand \<open>(P + 1) / 2\<close> the output of \<open>Inverse\<close> is not both the
  canonical \<open>a^(P - 2) mod P\<close> and an inverse of \<open>a\<close> modulo \<open>P\<close>: it would have to be 2, and
  the last \<open>Multiply\<close> of the schedule, by \<open>a\<close> itself, returns a value below 1103717 only
  when the product of its operands is that value.
\<close>

lemma Inverse_half_64_not_canonical_inverse:
  "length (limbs half_64) = LIMBS TYPE(64) \<and> num_value half_64 < prime_P \<and> num_value half_64 \<noteq> 0
     \<and> \<not> (num_value (Inverse half_64) = num_value half_64 ^ (prime_P - 2) mod prime_P
            \<and> (num_value half_64 * num_value (Inverse half_64)) mod prime_P = 1)"
proof -
  define h where "h = num_value half_64"
  define V where "V = num_value (Inverse half_64)"
  have h2: "2 * h = prime_P + 1" unfolding h_def by (rule half_64_value)
  have hP: "h < prime_P" and h0: "h \<noteq> 0" and hgt: "2 < h" using h2 P_gt_6 by linarith+
  have no: "\<not> (V = h ^ (prime_P - 2) mod prime_P \<and> (h * V) mod prime_P = 1)"
  proof
    assume A: "V = h ^ (prime_P - 2) mod prime_P \<and> (h * V) mod prime_P = 1"
    then have A1: "V = h ^ (prime_P - 2) mod prime_P" and A2: "(h * V) mod prime_P = 1"
      by blast+
    have "h ^ (prime_P - 2) mod prime_P < prime_P"
      using P_gt_6 by (intro mod_less_divisor) simp
    then have VP: "V < prime_P" by (simp only: A1)
    have "(2 * (h * V)) mod prime_P = (2 * ((h * V) mod prime_P)) mod prime_P"
      by (simp only: mod_mult_right_eq)
    also have "\<dots> = 2 mod prime_P" by (simp only: A2 mult_1_right)
    also have "\<dots> = 2" using P_gt_6 by simp
    finally have e1: "(2 * (h * V)) mod prime_P = 2" .
    have "2 * (h * V) = (2 * h) * V" by simp
    also have "\<dots> = V + prime_P * V" by (simp only: h2) (simp add: algebra_simps)
    finally have "(2 * (h * V)) mod prime_P = V mod prime_P" by simp
    then have V2: "V = 2" using e1 VP by simp
    obtain x' where inv: "Inverse half_64 = Multiply x' half_64"
      and lx: "length (limbs x') = LIMBS TYPE(64)"
      using Inverse_spec [OF build_ok_64 half_64_length] by blast
    have "num_value (Multiply x' half_64) < 1103717"
      using V2 unfolding V_def inv by simp
    then have "num_value (Multiply x' half_64) = num_value x' * num_value half_64"
      by (rule Multiply_below_C [OF build_ok_64 lx half_64_length])
    then have p: "num_value x' * h = 2"
      using V2 unfolding V_def inv h_def by simp
    show False
    proof (cases "num_value x' = 0")
      case True
      then show False using p by simp
    next
      case False
      then have "1 * h \<le> num_value x' * h" by (intro mult_le_mono1) simp
      then show False using p hgt by simp
    qed
  qed
  show ?thesis
    using half_64_length hP h0 no unfolding h_def V_def by blast
qed

section \<open>Division by an equal accumulator\<close>

lemma limbs_value_inj:
  fixes xs ys :: "'a::len word list"
  assumes "length xs = length ys" "limbs_value xs = limbs_value ys"
  shows "xs = ys"
  using assms
proof (induction xs arbitrary: ys)
  case Nil
  then show ?case by simp
next
  case (Cons x xs)
  then obtain y ys' where ys: "ys = y # ys'" by (cases ys) auto
  have eq: "unat x + 2 ^ LENGTH('a) * limbs_value xs = unat y + 2 ^ LENGTH('a) * limbs_value ys'"
    using Cons.prems(2) by (simp add: ys)
  have "unat x = unat y \<and> limbs_value xs = limbs_value ys'"
    by (rule digits_unique [OF _ _ eq]) (simp_all add: unat_lt_radix)
  then show ?case using Cons.IH [of ys'] Cons.prems(1) by (simp add: ys word_unat_eq_iff)
qed

lemma Inverse_times_self:
  fixes a :: "'a::len word Num3072"
  assumes b: "build_ok TYPE('a)" and len: "length (limbs a) = LIMBS TYPE('a)"
  shows "length (limbs (Multiply a (Inverse a))) = LIMBS TYPE('a)
    \<and> num_value (Multiply a (Inverse a)) mod prime_P = num_value a ^ (prime_P - 1) mod prime_P"
proof -
  have r: "power_rep (Inverse a) (num_value a) (prime_P - 2)"
    using Inverse_spec [OF b len] unfolding P_minus_2 by blast
  have "power_rep (Multiply a (Inverse a)) (num_value a) (1 + (prime_P - 2))"
    by (rule Multiply_rep [OF b power_rep_self [OF len] r])
  moreover have "1 + (prime_P - 2) = prime_P - 1" using P_gt_6 by linarith
  ultimately have "power_rep (Multiply a (Inverse a)) (num_value a) (prime_P - 1)"
    by (simp only:)
  then show ?thesis unfolding power_rep_def .
qed

lemma MuHash3072_empty_length:
  "length (limbs (data (MuHash3072_empty :: 'a::len word MuHash3072))) = LIMBS TYPE('a)"
proof -
  have "length (fold (\<lambda>i l. l[i := 0]) is l) = length l" for "is" and l :: "'a word list"
    by (induction "is" arbitrary: l) simp_all
  then show ?thesis by (simp add: MuHash3072_empty_def)
qed

text \<open>
  Dividing an accumulator by one with the same limbs: when the value \<open>v\<close> satisfies
  Fermat's congruence \<open>v^(P - 1) mod P = 1\<close>, the digest after the division is the digest
  of the default-constructed object.
\<close>

lemma divide_by_equal_finalizes_to_empty:
  fixes s :: "'a::len word store"
  assumes b: "build_ok TYPE('a)" and len: "length (limbs (data (s lhs))) = LIMBS TYPE('a)"
    and same: "data (s rhs) = data (s lhs)"
    and fermat: "num_value (data (s lhs)) ^ (prime_P - 1) mod prime_P = 1"
  shows "snd (Finalize (operator_div_assign s lhs rhs lhs))
      = snd (Finalize (MuHash3072_empty :: 'a word MuHash3072))"
proof -
  define h where "h = operator_div_assign s lhs rhs lhs"
  define e :: "'a word MuHash3072" where "e = MuHash3072_empty"
  have dh: "data h = Multiply (data (s lhs)) (Inverse (data (s lhs)))"
    by (simp add: h_def operator_div_assign_eq same)
  have lh: "length (limbs (data h))  = LIMBS TYPE('a)"
    and vh: "num_value (data h) mod prime_P = 1"
    using Inverse_times_self [OF b len] fermat by (simp_all add: dh)
  have ve: "num_value (data e) = 1" unfolding e_def by (rule MuHash3072_empty_value)
  have le: "length (limbs (data e)) = LIMBS TYPE('a)"
    unfolding e_def by (rule MuHash3072_empty_length)
  have fh: "length (limbs (data (fst (Finalize h)))) = LIMBS TYPE('a)"
    "num_value (data (fst (Finalize h))) = 1"
    using Finalize_canonical [OF b lh] vh by simp_all
  have "num_value (data e) mod prime_P = 1" using ve P_gt_6 by simp
  then have fe: "length (limbs (data (fst (Finalize e)))) = LIMBS TYPE('a)"
    "num_value (data (fst (Finalize e))) = 1"
    using Finalize_canonical [OF b le] by simp_all
  have "limbs (data (fst (Finalize h))) = limbs (data (fst (Finalize e)))"
    by (rule limbs_value_inj) (simp_all add: fh fe num_value_def [symmetric])
  then show ?thesis
    unfolding h_def [symmetric] e_def [symmetric] by (simp only: Finalize_snd)
qed

section \<open>The compound assignments\<close>

lemma minus_one_64_length: "length (limbs minus_one_64) = LIMBS TYPE(64)"
  by (simp add: minus_one_64_def LIMBS_def)

lemma minus_one_64_value: "num_value minus_one_64 = prime_P - 1"
  by (simp add: minus_one_64_def num_value_def limbs_value_ones prime_P_def)

lemma P_minus_1_even: "prime_P - 1 = 2 * (2 ^ 3071 - 551859)"
  by (simp add: prime_P_def)

lemma minus_one_square:
  fixes p :: nat
  assumes "2 \<le> p"
  shows "(p - 1) ^ (2 * k) mod p = 1"
proof -
  obtain q where q: "p = q + 2" using assms by (metis add.commute le_Suc_ex)
  have "(p - 1) ^ 2 = p * q + 1" by (simp add: q power2_eq_square algebra_simps)
  then have "(p - 1) ^ 2 mod p = (p * q + 1) mod p" by (simp only:)
  also have "\<dots> = 1 mod p" by (rule mod_mult_self4)
  also have "\<dots> = 1" using assms by simp
  finally have "(p - 1) ^ 2 mod p = 1" .
  then have "((p - 1) ^ 2) ^ k mod p = 1 ^ k mod p"
    by (metis power_mod)
  then show ?thesis using assms by (simp add: power_mult)
qed

lemma minus_one_power: "(prime_P - 1) ^ (prime_P - 1) mod prime_P = 1"
proof -
  have "2 \<le> prime_P" using P_gt_6 by simp
  then have "(prime_P - 1) ^ (2 * (2 ^ 3071 - 551859)) mod prime_P = 1"
    by (rule minus_one_square)
  then show ?thesis by (simp only: P_minus_1_even [symmetric])
qed

text \<open>
  C10, as amended. \<open>this *= x\<close> and \<open>this /= x\<close> write the left operand only: every
  object at another address is exactly as before, so for every pair of distinct
  accumulators the limbs of the right operand are unchanged. The object at \<open>this\<close>
  becomes its old value multiplied by the old value of \<open>x\<close>, respectively by \<open>Inverse\<close>
  of the old value of \<open>x\<close>: the inverse is taken of the right operand, into a temporary,
  and never of the left operand. That holds also when \<open>x\<close> is the object at \<open>this\<close>
  itself; then the right operand is the object that is written.
\<close>

theorem compound_assignments_write_left_operand_only:
  fixes s :: "'a::len limb_t store"
  shows "(\<forall>y. y \<noteq> this \<longrightarrow> operator_mul_assign s this x y = s y \<and> operator_div_assign s this x y = s y)
    \<and> (x \<noteq> this \<longrightarrow> limbs (data (operator_mul_assign s this x x)) = limbs (data (s x))
                   \<and> limbs (data (operator_div_assign s this x x)) = limbs (data (s x)))
    \<and> data (operator_mul_assign s this x this) = Multiply (data (s this)) (data (s x))
    \<and> data (operator_div_assign s this x this) = Multiply (data (s this)) (Inverse (data (s x)))"
  by (simp add: operator_mul_assign_eq operator_div_assign_eq)

theorem compound_assignments_write_left_operand_only_witness:
  "(1::nat) \<noteq> 0
     \<and> operator_mul_assign example_store 0 1 1 = example_store 1
     \<and> operator_div_assign example_store 0 1 1 = example_store 1
     \<and> limbs (data (operator_mul_assign example_store 0 1 1)) = limbs (data (example_store 1))
     \<and> limbs (data (operator_div_assign example_store 0 1 1)) = limbs (data (example_store 1))"
proof -
  have "(1::nat) \<noteq> 0" by simp
  then show ?thesis
    using compound_assignments_write_left_operand_only [of 0 example_store 1] by blast
qed

text \<open>
  C10 as stated fails when the two accumulators are the same object. After \<open>x *= x\<close> on
  the object of value 2 its limbs are those of 4, and after \<open>x /= x\<close> on the object of
  value \<open>P - 1\<close> its value is congruent to 1: in both calls the limbs of the right
  operand have changed.
\<close>

theorem self_assignment_changes_right_operand:
  "limbs (data (operator_mul_assign example_store 0 0 0)) \<noteq> limbs (data (example_store 0))
     \<and> num_value (data (operator_mul_assign example_store 0 0 0)) = 4
     \<and> limbs (data (operator_div_assign minus_one_store 0 0 0)) \<noteq> limbs (data (minus_one_store 0))
     \<and> num_value (data (operator_div_assign minus_one_store 0 0 0)) mod prime_P = 1"
proof -
  have "num_value two_64 * num_value two_64 < prime_P + 1103717"
    by (simp add: two_64_value prime_P_def)
  then have "num_value (Multiply two_64 two_64) = num_value two_64 * num_value two_64"
    by (rule Multiply_exact [OF build_ok_64 two_64_length two_64_length])
  then have four: "num_value (Multiply two_64 two_64) = 4" by (simp add: two_64_value)
  have m: "data (operator_mul_assign example_store 0 0 0) = Multiply two_64 two_64"
    by (simp add: operator_mul_assign_eq example_store_def)
  have e0: "data (example_store 0) = two_64" by (simp add: example_store_def)
  have c1: "limbs (data (operator_mul_assign example_store 0 0 0)) \<noteq> limbs (data (example_store 0))"
  proof
    assume "limbs (data (operator_mul_assign example_store 0 0 0)) = limbs (data (example_store 0))"
    then have "limbs (Multiply two_64 two_64) = limbs two_64"
      by (simp only: m e0)
    then have "num_value (Multiply two_64 two_64) = num_value two_64"
      by (simp only: num_value_def)
    then show False using four by (simp add: two_64_value)
  qed
  have d: "data (operator_div_assign minus_one_store 0 0 0) = Multiply minus_one_64 (Inverse minus_one_64)"
    by (simp add: operator_div_assign_eq minus_one_store_def)
  have "num_value (Multiply minus_one_64 (Inverse minus_one_64)) mod prime_P
      = num_value minus_one_64 ^ (prime_P - 1) mod prime_P"
    using Inverse_times_self [OF build_ok_64 minus_one_64_length] by blast
  also have "\<dots> = 1"
    by (simp only: minus_one_64_value minus_one_power)
  finally have one: "num_value (Multiply minus_one_64 (Inverse minus_one_64)) mod prime_P = 1" .
  have m0: "data (minus_one_store 0) = minus_one_64" by (simp add: minus_one_store_def)
  have c2: "limbs (data (operator_div_assign minus_one_store 0 0 0)) \<noteq> limbs (data (minus_one_store 0))"
  proof
    assume "limbs (data (operator_div_assign minus_one_store 0 0 0)) = limbs (data (minus_one_store 0))"
    then have "limbs (Multiply minus_one_64 (Inverse minus_one_64)) = limbs minus_one_64"
      by (simp only: d m0)
    then have "num_value (Multiply minus_one_64 (Inverse minus_one_64)) = num_value minus_one_64"
      by (simp only: num_value_def)
    then have "(prime_P - 1) mod prime_P = 1"
      using one by (simp only: minus_one_64_value)
    then show False using P_gt_6 by simp
  qed
  show ?thesis using c1 c2 four one by (simp only: m d) blast
qed

end
